theory Spec2Isabelle
  imports Main "HOL-Library.Multiset" "HOL-Library.Sublist"
begin

section \<open>Data model of main.go\<close>

text \<open>
  Go strings are modelled as \<open>string\<close> (lists of 8-bit characters), Go maps as partial
  functions, and the Go \<open>error\<close> interface as an optional message (\<open>None\<close> is \<open>nil\<close>).
\<close>

record Project =
  ProjectId :: string
  Name :: string

record ServiceAccount =
  ProjectID :: string
  Email :: string
  UniqueId :: string
  Status :: string

text \<open>The struct \<open>ProjectAccess\<close>; its field \<open>ProjectID\<close> is renamed to keep record fields distinct.\<close>

record ProjectAccess =
  AccessProjectID :: string
  HasAccess :: string

record projectResult =
  Project :: Project
  ServiceAccounts :: "ServiceAccount list"
  Error :: "string option"

type_synonym accounts = "string \<rightharpoonup> ServiceAccount"

section \<open>White space\<close>

text \<open>
  The white space that Unicode defines (\<open>unicode.IsSpace\<close>). A Go string is a sequence of
  bytes in UTF-8, so the white space characters are these byte sequences: tab, line feed,
  vertical tab, form feed, carriage return, space, then U+0085, U+00A0, U+1680, U+2000 to
  U+200A, U+2028, U+2029, U+202F, U+205F and U+3000.
\<close>

definition white_space :: "string list" where
  "white_space =
     [[CHR 0x09], [CHR 0x0A], [CHR 0x0B], [CHR 0x0C], [CHR 0x0D], [CHR 0x20],
      [CHR 0xC2, CHR 0x85], [CHR 0xC2, CHR 0xA0], [CHR 0xE1, CHR 0x9A, CHR 0x80],
      [CHR 0xE2, CHR 0x80, CHR 0x80], [CHR 0xE2, CHR 0x80, CHR 0x81],
      [CHR 0xE2, CHR 0x80, CHR 0x82], [CHR 0xE2, CHR 0x80, CHR 0x83],
      [CHR 0xE2, CHR 0x80, CHR 0x84], [CHR 0xE2, CHR 0x80, CHR 0x85],
      [CHR 0xE2, CHR 0x80, CHR 0x86], [CHR 0xE2, CHR 0x80, CHR 0x87],
      [CHR 0xE2, CHR 0x80, CHR 0x88], [CHR 0xE2, CHR 0x80, CHR 0x89],
      [CHR 0xE2, CHR 0x80, CHR 0x8A], [CHR 0xE2, CHR 0x80, CHR 0xA8],
      [CHR 0xE2, CHR 0x80, CHR 0xA9], [CHR 0xE2, CHR 0x80, CHR 0xAF],
      [CHR 0xE2, CHR 0x81, CHR 0x9F], [CHR 0xE3, CHR 0x80, CHR 0x80]]"

section \<open>The package encoding/csv\<close>

text \<open>
  The file \<open>service-accounts.csv\<close> is read with \<open>csv.NewReader(file).ReadAll()\<close> and
  written with \<open>csv.NewWriter(file).Write\<close>. Both are used as \<open>NewReader\<close> and
  \<open>NewWriter\<close> set them up: the separator is the comma, there is no comment character,
  \<open>FieldsPerRecord\<close> is 0, \<open>LazyQuotes\<close>, \<open>TrimLeadingSpace\<close> and \<open>UseCRLF\<close> are off. The
  file is the sequence of its bytes. The four bytes that the format gives a meaning to:
\<close>

abbreviation LF :: char where "LF \<equiv> CHR 0x0A"
abbreviation CR :: char where "CR \<equiv> CHR 0x0D"
abbreviation DQ :: char where "DQ \<equiv> CHR 0x22"
abbreviation Comma :: char where "Comma \<equiv> CHR 0x2C"

text \<open>
  The errors of the reader: a quote inside a field that does not start with one, a quoted
  field that is not closed or has a byte other than quote, comma or line end after a
  quote, and a record whose number of fields is not that of the first record.
\<close>

datatype csv_error = ErrBareQuote | ErrQuote | ErrFieldCount

text \<open>\<open>lengthNL\<close>: 1 when the bytes end with a line feed, else 0.\<close>

definition lengthNL :: "string \<Rightarrow> nat" where
  "lengthNL b = (if b \<noteq> [] \<and> last b = LF then 1 else 0)"

text \<open>
  \<open>Reader.readLine\<close>: the bytes up to and with the next line feed, or up to the end of the
  input. The result is the line, the input left, and whether the end of the input was
  met with nothing read (\<open>io.EOF\<close>). A carriage return in front of the end of the input
  is dropped, and a line that ends with carriage return and line feed ends with the line
  feed alone.
\<close>

definition readLine :: "string \<Rightarrow> string \<times> string \<times> bool" where
  "readLine input =
     (let line = takeWhile (\<lambda>c. c \<noteq> LF) input;
          rest = dropWhile (\<lambda>c. c \<noteq> LF) input
      in if rest = [] then
           (if line = [] then ([], [], True)
            else if last line = CR then (butlast line, [], False)
            else (line, [], False))
         else if line \<noteq> [] \<and> last line = CR then (butlast line @ [LF], tl rest, False)
         else (line @ [LF], tl rest, False))"

text \<open>
  The loop \<open>parseField\<close> of \<open>Reader.readRecord\<close> over the line in hand, with the input
  that follows the line and the fields read so far. A field that does not start with a
  quote ends at the next comma, or at the end of the line, where the record ends too; it
  must hold no quote. A field that starts with a quote is read by \<open>quotedField\<close>, the
  inner loop: up to the next quote of the line; two quotes stand for one; a quote before
  a comma ends the field, a quote at the end of the line ends the record; a line without
  quote belongs to the field with its line end, and the field goes on in the next line.
  The result is the error, or the fields of the record and the input left.
\<close>

function parseField :: "string \<Rightarrow> string \<Rightarrow> string list \<Rightarrow> csv_error + string list \<times> string"
  and quotedField :: "string \<Rightarrow> string \<Rightarrow> string \<Rightarrow> string list \<Rightarrow> csv_error + string list \<times> string"
where
  "parseField line input got =
     (if line = [] \<or> hd line \<noteq> DQ then
        (if Comma \<in> set line then
           (if DQ \<in> set (takeWhile (\<lambda>c. c \<noteq> Comma) line) then Inl ErrBareQuote
            else parseField (tl (dropWhile (\<lambda>c. c \<noteq> Comma) line)) input
                   (got @ [takeWhile (\<lambda>c. c \<noteq> Comma) line]))
         else
           (if DQ \<in> set (take (length line - lengthNL line) line) then Inl ErrBareQuote
            else Inr (got @ [take (length line - lengthNL line) line], input)))
      else quotedField (tl line) input [] got)"
| "quotedField line input field got =
     (if DQ \<in> set line then
        (case tl (dropWhile (\<lambda>c. c \<noteq> DQ) line) of
           [] \<Rightarrow> Inr (got @ [field @ takeWhile (\<lambda>c. c \<noteq> DQ) line], input)
         | c # after \<Rightarrow>
             if c = DQ then quotedField after input (field @ takeWhile (\<lambda>c. c \<noteq> DQ) line @ [DQ]) got
             else if c = Comma then parseField after input (got @ [field @ takeWhile (\<lambda>c. c \<noteq> DQ) line])
             else if c = LF \<and> after = [] then Inr (got @ [field @ takeWhile (\<lambda>c. c \<noteq> DQ) line], input)
             else Inl ErrQuote)
      else if line \<noteq> [] then
        (case readLine input of (next_line, rest, eof) \<Rightarrow> quotedField next_line rest (field @ line) got)
      else Inl ErrQuote)"
  by pat_completeness auto
termination
proof -
  have shorter: "length line + length rest \<le> length input"
    if "readLine input = (line, rest, eof)" for input line rest eof
  proof -
    define l where "l = takeWhile (\<lambda>c. c \<noteq> LF) input"
    define r where "r = dropWhile (\<lambda>c. c \<noteq> LF) input"
    have len: "length input = length l + length r"
      unfolding l_def r_def by (metis length_append takeWhile_dropWhile_id)
    have rl: "readLine input =
        (if r = [] then
           (if l = [] then ([], [], True)
            else if last l = CR then (butlast l, [], False)
            else (l, [], False))
         else if l \<noteq> [] \<and> last l = CR then (butlast l @ [LF], tl r, False)
         else (l @ [LF], tl r, False))"
      by (simp only: readLine_def Let_def l_def r_def)
    show ?thesis
    proof (cases r)
      case Nil
      with that rl len show ?thesis by (auto split: if_splits)
    next
      case (Cons c r')
      with that rl len show ?thesis by (auto split: if_splits)
    qed
  qed
  show ?thesis
  proof (relation "measure (\<lambda>x. case x of Inl (line, input, got) \<Rightarrow> length line + length input
                                        | Inr (line, input, field, got) \<Rightarrow> length line + length input)",
         goal_cases)
    case 1
    then show ?case by simp
  next
    case (2 line input got)
    then have "length (dropWhile (\<lambda>c. c \<noteq> Comma) line) \<le> length line" "dropWhile (\<lambda>c. c \<noteq> Comma) line \<noteq> []"
      by (simp_all add: length_dropWhile_le)
    then show ?case by (cases "dropWhile (\<lambda>c. c \<noteq> Comma) line") auto
  next
    case (3 line input got)
    then show ?case by (cases line) auto
  next
    case (4 line input field got c after)
    have "length (dropWhile (\<lambda>c. c \<noteq> DQ) line) \<le> length line"
      by (simp add: length_dropWhile_le)
    with 4 show ?case by (cases "dropWhile (\<lambda>c. c \<noteq> DQ) line") auto
  next
    case (5 line input field got c after)
    have "length (dropWhile (\<lambda>c. c \<noteq> DQ) line) \<le> length line"
      by (simp add: length_dropWhile_le)
    with 5 show ?case by (cases "dropWhile (\<lambda>c. c \<noteq> DQ) line") auto
  next
    case 6
    then show ?case
      by (auto simp: neq_Nil_conv dest!: shorter [OF sym])
  qed
qed

declare parseField.simps [simp del] quotedField.simps [simp del]

text \<open>
  \<open>Reader.readRecord\<close>: the next line that is not empty is parsed; at the end of the
  input there is no record (\<open>None\<close>, the error \<open>io.EOF\<close> of the library).
\<close>

function readRecord :: "string \<Rightarrow> (csv_error + string list \<times> string) option" where
  "readRecord input =
     (case readLine input of (line, rest, eof) \<Rightarrow>
        if eof then None
        else if length line = lengthNL line then readRecord rest
        else Some (parseField line rest []))"
  by pat_completeness auto
termination
proof -
  have shorter: "length rest < length input"
    if "readLine input = (line, rest, False)" for input line rest
  proof -
    define l where "l = takeWhile (\<lambda>c. c \<noteq> LF) input"
    define r where "r = dropWhile (\<lambda>c. c \<noteq> LF) input"
    have len: "length input = length l + length r"
      unfolding l_def r_def by (metis length_append takeWhile_dropWhile_id)
    have rl: "readLine input =
        (if r = [] then
           (if l = [] then ([], [], True)
            else if last l = CR then (butlast l, [], False)
            else (l, [], False))
         else if l \<noteq> [] \<and> last l = CR then (butlast l @ [LF], tl r, False)
         else (l @ [LF], tl r, False))"
      by (simp only: readLine_def Let_def l_def r_def)
    show ?thesis
    proof (cases r)
      case Nil
      with that rl len show ?thesis by (auto split: if_splits)
    next
      case (Cons c r')
      with that rl len show ?thesis by (auto split: if_splits)
    qed
  qed
  show ?thesis
  proof (relation "measure length", goal_cases)
    case 1
    then show ?case by simp
  next
    case 2
    then show ?case
      by (auto dest!: shorter [OF sym])
  qed
qed

declare readRecord.simps [simp del]

text \<open>
  \<open>Reader.ReadAll\<close>: the records up to the end of the input, or the first error and no
  record at all. \<open>FieldsPerRecord\<close> starts at 0 and is set to the number of fields of the
  first record; a later record with another number of fields is the error
  \<open>ErrFieldCount\<close>.
\<close>

function ReadAll_loop :: "nat \<Rightarrow> string \<Rightarrow> string list list \<Rightarrow> csv_error + string list list" where
  "ReadAll_loop FieldsPerRecord input records =
     (case readRecord input of
        None \<Rightarrow> Inr records
      | Some (Inl err) \<Rightarrow> Inl err
      | Some (Inr (record, rest)) \<Rightarrow>
          if 0 < FieldsPerRecord \<and> length record \<noteq> FieldsPerRecord then Inl ErrFieldCount
          else ReadAll_loop (if FieldsPerRecord = 0 then length record else FieldsPerRecord) rest
                 (records @ [record]))"
  by pat_completeness auto
termination
proof -
  have line_shorter: "length l + length r \<le> length input \<and> (\<not> e \<longrightarrow> length r < length input)"
    if "readLine input = (l, r, e)" for input l r e
  proof -
    define tw where "tw = takeWhile (\<lambda>c. c \<noteq> LF) input"
    define dw where "dw = dropWhile (\<lambda>c. c \<noteq> LF) input"
    have len: "length input = length tw + length dw"
      unfolding tw_def dw_def by (metis length_append takeWhile_dropWhile_id)
    have rl: "readLine input =
        (if dw = [] then
           (if tw = [] then ([], [], True)
            else if last tw = CR then (butlast tw, [], False)
            else (tw, [], False))
         else if tw \<noteq> [] \<and> last tw = CR then (butlast tw @ [LF], tl dw, False)
         else (tw @ [LF], tl dw, False))"
      by (simp only: readLine_def Let_def tw_def dw_def)
    show ?thesis
    proof (cases dw)
      case Nil
      with that rl len show ?thesis by (auto split: if_splits)
    next
      case (Cons c dw')
      with that rl len show ?thesis by (auto split: if_splits)
    qed
  qed
  have fields_shorter:
    "parseField line input got = Inr (fs, rest) \<Longrightarrow> length rest \<le> length input"
    "quotedField line input field got = Inr (fs, rest) \<Longrightarrow> length rest \<le> length input"
    for line input got field fs rest
  proof (induction line input got and line input field got rule: parseField_quotedField.induct)
    case (1 line input got)
    note eq = 1(3) [unfolded parseField.simps [of line input got]]
    from eq 1(1) 1(2) show ?case
      by (auto split: if_splits)
  next
    case (2 line input field got)
    note eq = 2(4) [unfolded quotedField.simps [of line input field got]]
    show ?case
    proof (cases "DQ \<in> set line")
      case True
      with eq 2(1) 2(2) show ?thesis
        by (auto split: if_splits list.splits)
    next
      case False
      obtain l r e where rl: "readLine input = (l, r, e)"
        by (cases "readLine input") auto
      from False eq have ne: "line \<noteq> []"
        by (auto split: if_splits)
      with False eq rl have "quotedField l r (field @ line) got = Inr (fs, rest)"
        by simp
      with 2(3) [OF False ne rl [symmetric] refl] have "length rest \<le> length r" .
      with line_shorter [OF rl] show ?thesis by simp
    qed
  qed
  have record_shorter: "readRecord input = Some (Inr (fs, rest)) \<Longrightarrow> length rest < length input"
    for input fs rest
  proof (induction input rule: readRecord.induct)
    case (1 input)
    obtain l r e where rl: "readLine input = (l, r, e)"
      by (cases "readLine input") auto
    note eq = 1(2) [unfolded readRecord.simps [of input] rl, simplified]
    show ?case
    proof (cases "length l = lengthNL l")
      case True
      with eq have e: "\<not> e" and "readRecord r = Some (Inr (fs, rest))"
        by (auto split: if_splits)
      with 1(1) [OF rl [symmetric] refl e True] line_shorter [OF rl] show ?thesis
        by simp
    next
      case False
      with eq have e: "\<not> e" and "parseField l r [] = Inr (fs, rest)"
        by (auto split: if_splits)
      with fields_shorter(1) [of l r "[]" fs rest] line_shorter [OF rl] show ?thesis
        by simp
    qed
  qed
  show ?thesis
  proof (relation "measure (\<lambda>(FieldsPerRecord, input, records). length input)", goal_cases)
    case 1
    then show ?case by simp
  next
    case 2
    then show ?case
      by (auto dest!: record_shorter)
  qed
qed

declare ReadAll_loop.simps [simp del]

definition ReadAll :: "string \<Rightarrow> csv_error + string list list" where
  "ReadAll input = ReadAll_loop 0 input []"

text \<open>
  \<open>Writer.fieldNeedsQuotes\<close>: the empty field is written as it is; the field of a backslash and a dot, a
  field with a line feed, a carriage return, a quote or a comma, and a field that starts
  with white space are written between quotes.
\<close>

definition fieldNeedsQuotes :: "string \<Rightarrow> bool" where
  "fieldNeedsQuotes field =
     (if field = [] then False
      else if field = [CHR 0x5C, CHR 0x2E] then True
      else if LF \<in> set field \<or> CR \<in> set field \<or> DQ \<in> set field \<or> Comma \<in> set field then True
      else list_ex (\<lambda>r. prefix r field) white_space)"

text \<open>
  \<open>Writer.Write\<close>: the fields with commas between them, then a line feed. Between the
  quotes of a quoted field every quote is doubled and every other byte, carriage return
  and line feed too, is written as it is.
\<close>

fun quoted :: "string \<Rightarrow> string" where
  "quoted [] = []"
| "quoted (c # field) = (if c = DQ then [DQ, DQ] else [c]) @ quoted field"

definition Write_field :: "string \<Rightarrow> string" where
  "Write_field field = (if fieldNeedsQuotes field then [DQ] @ quoted field @ [DQ] else field)"

fun Write_fields :: "nat \<Rightarrow> string list \<Rightarrow> string" where
  "Write_fields n [] = []"
| "Write_fields n (field # record) =
     (if 0 < n then [Comma] else []) @ Write_field field @ Write_fields (Suc n) record"

definition Write :: "string list \<Rightarrow> string" where
  "Write record = Write_fields 0 record @ [LF]"

section \<open>The record store\<close>

text \<open>\<open>fmt.Sprintf("%s|%s|%s", p, e, u)\<close>, the key of the store in load mode.\<close>

definition account_key :: "string \<Rightarrow> string \<Rightarrow> string \<Rightarrow> string" where
  "account_key p e u = p @ ''|'' @ e @ ''|'' @ u"

text \<open>
  The body of the inner loop of \<open>concurrentProjectProcessing\<close> (lines 436 to 439): the
  account is stored under the key of the outcome's project with status \<open>active\<close>.
\<close>

definition upsert_account :: "string \<Rightarrow> ServiceAccount \<Rightarrow> accounts \<Rightarrow> accounts" where
  "upsert_account pid acc existingAccounts =
     existingAccounts(account_key pid (Email acc) (UniqueId acc) \<mapsto>
       \<lparr>ProjectID = pid, Email = Email acc, UniqueId = UniqueId acc, Status = ''active''\<rparr>)"

text \<open>
  \<open>readExistingCSV\<close>. The file is given by its bytes (\<open>None\<close> when it cannot be opened).
  The error of \<open>ReadAll\<close> is dropped (\<open>records, _ := reader.ReadAll()\<close>), and with an
  error \<open>ReadAll\<close> returns no records. The loop runs over the records with their index,
  skipping index 0 (the header) and every row with fewer than 4 columns.
\<close>

fun readExistingCSV_loop :: "nat \<Rightarrow> string list list \<Rightarrow> accounts \<Rightarrow> accounts" where
  "readExistingCSV_loop i [] accounts = accounts"
| "readExistingCSV_loop i (row # records) accounts =
     (if i = 0 then readExistingCSV_loop (Suc i) records accounts
      else if 4 \<le> length row then
        readExistingCSV_loop (Suc i) records
          (accounts(account_key (row ! 0) (row ! 1) (row ! 2) \<mapsto>
             \<lparr>ProjectID = row ! 0, Email = row ! 1, UniqueId = row ! 2, Status = row ! 3\<rparr>))
      else readExistingCSV_loop (Suc i) records accounts)"

definition readExistingCSV :: "string option \<Rightarrow> accounts" where
  "readExistingCSV file =
     (case file of
        None \<Rightarrow> Map.empty
      | Some content \<Rightarrow>
          (case ReadAll content of
             Inl err \<Rightarrow> readExistingCSV_loop 0 [] Map.empty
           | Inr records \<Rightarrow> readExistingCSV_loop 0 records Map.empty))"

text \<open>\<open>readExistingCSVForAnalysis\<close>: the same loop, keyed by the subject id alone.\<close>

fun readExistingCSVForAnalysis_loop :: "nat \<Rightarrow> string list list \<Rightarrow> accounts \<Rightarrow> accounts" where
  "readExistingCSVForAnalysis_loop i [] accounts = accounts"
| "readExistingCSVForAnalysis_loop i (row # records) accounts =
     (if i = 0 \<or> length row < 4 then readExistingCSVForAnalysis_loop (Suc i) records accounts
      else
        readExistingCSVForAnalysis_loop (Suc i) records
          (accounts(row ! 2 \<mapsto>
             \<lparr>ProjectID = row ! 0, Email = row ! 1, UniqueId = row ! 2, Status = row ! 3\<rparr>)))"

definition readExistingCSVForAnalysis :: "string option \<Rightarrow> accounts" where
  "readExistingCSVForAnalysis file =
     (case file of
        None \<Rightarrow> Map.empty
      | Some content \<Rightarrow>
          (case ReadAll content of
             Inl err \<Rightarrow> readExistingCSVForAnalysis_loop 0 [] Map.empty
           | Inr records \<Rightarrow> readExistingCSVForAnalysis_loop 0 records Map.empty))"

text \<open>
  \<open>writeCSV\<close>: the header, then one row per entry; the result is the bytes of the file
  after the deferred \<open>Flush\<close>. Go ranges over a map in an unspecified order; the order of
  the visit is the argument \<open>order\<close>, a list of keys.
\<close>

definition account_row :: "ServiceAccount \<Rightarrow> string list" where
  "account_row acc = [ProjectID acc, Email acc, UniqueId acc, Status acc]"

definition writeCSV :: "string list \<Rightarrow> accounts \<Rightarrow> string" where
  "writeCSV order accounts =
     concat (map Write
       ([''ProjectID'', ''Email'', ''SubjectID'', ''Status'']
          # List.map_filter (\<lambda>key. map_option account_row (accounts key)) order))"

section \<open>Reconciliation: the consumer loop of concurrentProjectProcessing\<close>

text \<open>
  The state that the consumer loop (lines 421 to 442) reads and writes: the store, the
  access status list, the set of processed projects (a \<open>map[string]bool\<close>) and the
  buffered channel \<open>progress\<close>, given by the values waiting in it.
\<close>

record recon_state =
  existingAccounts :: accounts
  accessStatuses :: "ProjectAccess list"
  processed :: "string \<rightharpoonup> bool"
  progress :: "int list"

text \<open>Line 423: \<open>progress <- 1\<close>.\<close>

definition send_progress :: "recon_state \<Rightarrow> recon_state" where
  "send_progress s = s\<lparr>progress := progress s @ [1]\<rparr>"

text \<open>Lines 424 to 440: the two branches on \<open>res.Error\<close>.\<close>

definition reconcile_result :: "projectResult \<Rightarrow> recon_state \<Rightarrow> recon_state" where
  "reconcile_result res s =
     (if Error res \<noteq> None then
        s\<lparr>accessStatuses := accessStatuses s @
             [\<lparr>AccessProjectID = ProjectId (Project res), HasAccess = ''no''\<rparr>]\<rparr>
      else
        s\<lparr>accessStatuses := accessStatuses s @
             [\<lparr>AccessProjectID = ProjectId (Project res), HasAccess = ''yes''\<rparr>],
          processed := (processed s)(ProjectId (Project res) \<mapsto> True),
          existingAccounts :=
            fold (upsert_account (ProjectId (Project res))) (ServiceAccounts res)
              (existingAccounts s)\<rparr>)"

text \<open>One iteration of the loop: the progress signal first, then the reconciliation.\<close>

definition process_result :: "projectResult \<Rightarrow> recon_state \<Rightarrow> recon_state" where
  "process_result res s = reconcile_result res (send_progress s)"

text \<open>
  The whole loop over the outcomes in the order \<open>results\<close> in which the channel delivers
  them, from the state that \<open>main\<close> passes in (empty status list, empty processed map).
\<close>

definition initial_state :: "accounts \<Rightarrow> recon_state" where
  "initial_state existing =
     \<lparr>existingAccounts = existing, accessStatuses = [], processed = Map.empty, progress = []\<rparr>"

definition concurrentProjectProcessing :: "projectResult list \<Rightarrow> accounts \<Rightarrow> recon_state" where
  "concurrentProjectProcessing results existing = fold process_result results (initial_state existing)"

text \<open>
  The worker of lines 399 to 411 for one project: it calls \<open>getServiceAccounts\<close> (the
  external command, here the function \<open>listAccounts\<close> from a project id to an error or
  the accounts) and builds the outcome.
\<close>

definition worker_result :: "(string \<Rightarrow> string + ServiceAccount list) \<Rightarrow> Project \<Rightarrow> projectResult" where
  "worker_result listAccounts p =
     (case listAccounts (ProjectId p) of
        Inl err \<Rightarrow> \<lparr>Project = p, ServiceAccounts = [], Error = Some err\<rparr>
      | Inr accs \<Rightarrow> \<lparr>Project = p, ServiceAccounts = accs, Error = None\<rparr>)"

section \<open>The deletion-marking pass of main\<close>

text \<open>\<open>processedProjects[acc.ProjectID]\<close>: a missing key reads as \<open>false\<close>.\<close>

definition is_processed :: "(string \<rightharpoonup> bool) \<Rightarrow> string \<Rightarrow> bool" where
  "is_processed processedProjects pid = (case processedProjects pid of None \<Rightarrow> False | Some b \<Rightarrow> b)"

text \<open>
  The body of the loop of lines 88 to 96 at one key. The inner test looks the visited key
  up in the map that is being ranged over.
\<close>

definition mark_step :: "(string \<rightharpoonup> bool) \<Rightarrow> string \<Rightarrow> accounts \<Rightarrow> accounts" where
  "mark_step processedProjects key existing =
     (case existing key of
        None \<Rightarrow> existing
      | Some acc \<Rightarrow>
          if is_processed processedProjects (ProjectID acc) then
            (if existing key = None then
               (existing(key \<mapsto> acc\<lparr>Status := ''deleted''\<rparr>))(key \<mapsto> acc\<lparr>Status := ''deleted''\<rparr>)
             else existing(key \<mapsto> acc))
          else existing)"

definition mark_deleted :: "string list \<Rightarrow> (string \<rightharpoonup> bool) \<Rightarrow> accounts \<Rightarrow> accounts" where
  "mark_deleted order processedProjects existing = fold (mark_step processedProjects) order existing"

text \<open>
  What \<open>main\<close> does to the store after loading it (lines 83 to 96): reconciliation of
  the outcomes, then the deletion-marking loop, which visits the keys in \<open>order\<close>.
\<close>

definition final_accounts :: "string list \<Rightarrow> projectResult list \<Rightarrow> accounts \<Rightarrow> accounts" where
  "final_accounts order results existing =
     mark_deleted order (processed (concurrentProjectProcessing results existing))
       (existingAccounts (concurrentProjectProcessing results existing))"

text \<open>
  Load mode from file to file, the file given by its bytes: \<open>readExistingCSV\<close>, the two
  loops, \<open>writeCSV\<close>.
\<close>

definition load_mode ::
  "string list \<Rightarrow> string list \<Rightarrow> projectResult list \<Rightarrow> string option \<Rightarrow> string option" where
  "load_mode mark_order write_order results file =
     Some (writeCSV write_order (final_accounts mark_order results (readExistingCSV file)))"

text \<open>The access status record that the loop appends for an outcome.\<close>

definition access_of :: "projectResult \<Rightarrow> ProjectAccess" where
  "access_of res =
     \<lparr>AccessProjectID = ProjectId (Project res),
      HasAccess = (if Error res \<noteq> None then ''no'' else ''yes'')\<rparr>"

text \<open>
  The outcome stream: every worker sends its outcome once on the unbuffered channel
  \<open>results\<close>, in the order the scheduler lets them, so the consumer loop receives the
  workers' outcomes in some order.
\<close>

definition arrival_of ::
  "(string \<Rightarrow> string + ServiceAccount list) \<Rightarrow> Project list \<Rightarrow> projectResult list \<Rightarrow> bool" where
  "arrival_of listAccounts projects results =
     (mset results = mset (map (worker_result listAccounts) projects))"

section \<open>Loading rows\<close>

text \<open>
  The entry and the load-mode key that both loaders build from a row, and one step of
  their loops with the key as a parameter: it is used to state what the loops compute.
\<close>

definition row_account :: "string list \<Rightarrow> ServiceAccount" where
  "row_account row = \<lparr>ProjectID = row ! 0, Email = row ! 1, UniqueId = row ! 2, Status = row ! 3\<rparr>"

definition row_key :: "string list \<Rightarrow> string" where
  "row_key row = account_key (row ! 0) (row ! 1) (row ! 2)"

definition load_row :: "(string list \<Rightarrow> string) \<Rightarrow> string list \<Rightarrow> accounts \<Rightarrow> accounts" where
  "load_row key row accounts = (if 4 \<le> length row then accounts(key row \<mapsto> row_account row) else accounts)"

section \<open>Notions for the statements about the file\<close>

text \<open>
  The bytes hold a carriage return with a line feed right after it. The reader turns
  such a pair at the end of a line into a line feed, also inside a quoted field, so a
  field with the pair is not read back as it was written.
\<close>

fun has_crlf :: "string \<Rightarrow> bool" where
  "has_crlf (c # d # s) = ((c = CR \<and> d = LF) \<or> has_crlf (d # s))"
| "has_crlf [c] = False"
| "has_crlf [] = False"

text \<open>
  No field of a row that \<open>writeCSV\<close> writes for the store, visiting the keys in \<open>order\<close>,
  holds such a pair.
\<close>

definition no_crlf_written :: "string list \<Rightarrow> accounts \<Rightarrow> bool" where
  "no_crlf_written order accounts =
     list_all (list_all (\<lambda>field. \<not> has_crlf field))
       (List.map_filter (\<lambda>key. map_option account_row (accounts key)) order)"

text \<open>
  Bytes without the pair that do not end with a carriage return either: written one after
  the other they hold no pair.
\<close>

definition line_ends_kept :: "string \<Rightarrow> bool" where
  "line_ends_kept s = (\<not> has_crlf s \<and> (s = [] \<or> last s \<noteq> CR))"

text \<open>
  The state of the reader on an input \<open>s\<close> that holds a line feed: the line in hand is
  the part of \<open>s\<close> up to its first line feed, the input left is what follows it. The two
  loops of \<open>readRecord\<close> started in that state.
\<close>

definition split_line :: "string \<Rightarrow> string \<times> string" where
  "split_line s = (takeWhile (\<lambda>c. c \<noteq> LF) s @ [LF], tl (dropWhile (\<lambda>c. c \<noteq> LF) s))"

definition fields_from :: "string \<Rightarrow> string list \<Rightarrow> csv_error + string list \<times> string" where
  "fields_from s got = parseField (fst (split_line s)) (snd (split_line s)) got"

definition quoted_from :: "string \<Rightarrow> string \<Rightarrow> string list \<Rightarrow> csv_error + string list \<times> string" where
  "quoted_from s field got = quotedField (fst (split_line s)) (snd (split_line s)) field got"

section \<open>Analysis mode: the bulk subject id lookup\<close>

text \<open>
  \<open>strings.Split(input, ",")\<close>: the pieces between the commas, empty pieces included;
  a string without comma gives the string itself, the empty string one empty piece.
\<close>

fun Split_comma :: "string \<Rightarrow> string list" where
  "Split_comma [] = [[]]"
| "Split_comma (c # cs) =
     (if c = CHR '','' then [] # Split_comma cs
      else (case Split_comma cs of [] \<Rightarrow> [[c]] | t # ts \<Rightarrow> (c # t) # ts))"

text \<open>
  \<open>strings.TrimSpace\<close> removes the leading and the trailing white space, the byte
  sequences of \<open>white_space\<close>.
\<close>

text \<open>Dropping, as long as there is one, a leading character of the list \<open>runes\<close>.\<close>

function trim_runes :: "string list \<Rightarrow> string \<Rightarrow> string" where
  "trim_runes runes s =
     (case List.find (\<lambda>r. r \<noteq> [] \<and> prefix r s) runes of
        None \<Rightarrow> s
      | Some r \<Rightarrow> trim_runes runes (drop (length r) s))"
  by pat_completeness auto
termination
  by (relation "measure (\<lambda>(runes, s). length s)") (auto simp: find_Some_iff prefix_def)

declare trim_runes.simps [simp del]

definition TrimSpace :: "string \<Rightarrow> string" where
  "TrimSpace s = rev (trim_runes (map rev white_space) (rev (trim_runes white_space s)))"

text \<open>
  \<open>bulkSubjectIDLookup\<close> (lines 212 to 237). The outer loop runs over the pieces of the
  input with their position \<open>i\<close>; the inner loop ranges over the map, in the order
  \<open>orders i\<close> of its keys (Go may choose another order at every \<open>range\<close>), and stops at
  the first account whose subject id is the trimmed piece. The result is the pair
  \<open>(found, missing)\<close> that is handed to \<open>printBulkResults\<close>.
\<close>

fun bulk_loop ::
  "(nat \<Rightarrow> string list) \<Rightarrow> accounts \<Rightarrow> nat \<Rightarrow> string list \<Rightarrow> ServiceAccount list \<times> string list
     \<Rightarrow> ServiceAccount list \<times> string list" where
  "bulk_loop orders accounts i [] (found, missing) = (found, missing)"
| "bulk_loop orders accounts i (rawID # subjectIDs) (found, missing) =
     (if TrimSpace rawID = [] then bulk_loop orders accounts (Suc i) subjectIDs (found, missing)
      else
        (case List.find (\<lambda>acc. UniqueId acc = TrimSpace rawID) (List.map_filter accounts (orders i)) of
           Some acc \<Rightarrow> bulk_loop orders accounts (Suc i) subjectIDs (found @ [acc], missing)
         | None \<Rightarrow> bulk_loop orders accounts (Suc i) subjectIDs (found, missing @ [TrimSpace rawID])))"

definition bulkSubjectIDLookup ::
  "(nat \<Rightarrow> string list) \<Rightarrow> accounts \<Rightarrow> string \<Rightarrow> ServiceAccount list \<times> string list" where
  "bulkSubjectIDLookup orders accounts input = bulk_loop orders accounts 0 (Split_comma input) ([], [])"

text \<open>
  The ids that the lookup considers (the trimmed, non-empty pieces of the input), whether
  an id is the subject id of a stored account, and the requirement on the orders: every
  \<open>range\<close> visits exactly the keys of the map.
\<close>

definition lookup_tokens :: "string \<Rightarrow> string list" where
  "lookup_tokens input = filter (\<lambda>t. t \<noteq> []) (map TrimSpace (Split_comma input))"

definition has_subject :: "accounts \<Rightarrow> string \<Rightarrow> bool" where
  "has_subject accounts t = (\<exists>acc \<in> ran accounts. UniqueId acc = t)"

definition visits_keys :: "(nat \<Rightarrow> string list) \<Rightarrow> accounts \<Rightarrow> bool" where
  "visits_keys orders accounts = (\<forall>i. set (orders i) = dom accounts)"

section \<open>Notions for the statements about the store\<close>

text \<open>
  The store that a run of load mode leaves in memory, from the file it starts with.
\<close>

definition store_after_run :: "string list \<Rightarrow> projectResult list \<Rightarrow> string option \<Rightarrow> accounts" where
  "store_after_run mark_order results file = final_accounts mark_order results (readExistingCSV file)"

text \<open>
  A string without the separator \<open>|\<close> of the store key; an outcome, and a stream of
  outcomes, whose successful queries have project ids and emails without it.
\<close>

definition bar_free :: "string \<Rightarrow> bool" where
  "bar_free s = (CHR ''|'' \<notin> set s)"

definition outcome_bar_free :: "projectResult \<Rightarrow> bool" where
  "outcome_bar_free res =
     (bar_free (ProjectId (Project res)) \<and> list_all (\<lambda>acc. bar_free (Email acc)) (ServiceAccounts res))"

definition results_bar_free :: "projectResult list \<Rightarrow> bool" where
  "results_bar_free results = list_all (\<lambda>res. Error res = None \<longrightarrow> outcome_bar_free res) results"

text \<open>Every outcome of the project \<open>pid\<close> in the stream is a failure.\<close>

definition no_success :: "string \<Rightarrow> projectResult list \<Rightarrow> bool" where
  "no_success pid results = list_all (\<lambda>res. ProjectId (Project res) = pid \<longrightarrow> Error res \<noteq> None) results"

text \<open>
  Two entries with the same identity triple, and: the identity of \<open>e\<close> is among the
  accounts of a successful outcome of its project.
\<close>

definition same_identity :: "ServiceAccount \<Rightarrow> ServiceAccount \<Rightarrow> bool" where
  "same_identity a b = (ProjectID a = ProjectID b \<and> Email a = Email b \<and> UniqueId a = UniqueId b)"

definition reappears :: "ServiceAccount \<Rightarrow> projectResult list \<Rightarrow> bool" where
  "reappears e results =
     list_ex (\<lambda>res. Error res = None \<and> ProjectId (Project res) = ProjectID e \<and>
                list_ex (\<lambda>acc. Email acc = Email e \<and> UniqueId acc = UniqueId e) (ServiceAccounts res))
       results"

text \<open>
  The writes that the loop performs for an outcome, as key and entry, in order; one
  write; and stores in which every entry sits under the key of its own fields.
\<close>

definition upserts_of :: "projectResult \<Rightarrow> (string \<times> ServiceAccount) list" where
  "upserts_of res =
     (if Error res \<noteq> None then []
      else map (\<lambda>acc. (account_key (ProjectId (Project res)) (Email acc) (UniqueId acc),
                       \<lparr>ProjectID = ProjectId (Project res), Email = Email acc,
                        UniqueId = UniqueId acc, Status = ''active''\<rparr>))
             (ServiceAccounts res))"

definition put :: "string \<times> ServiceAccount \<Rightarrow> accounts \<Rightarrow> accounts" where
  "put kv accounts = accounts(fst kv \<mapsto> snd kv)"

definition well_keyed :: "accounts \<Rightarrow> bool" where
  "well_keyed accounts =
     (\<forall>k acc. accounts k = Some acc \<longrightarrow> k = account_key (ProjectID acc) (Email acc) (UniqueId acc))"

text \<open>
  The condition under which the key string stands for the identity. \<open>keys_agree e\<close>:
  every account of a successful outcome that has the key of \<open>e\<close> has the identity of
  \<open>e\<close>. \<open>collision_free\<close>: two writes of the run to the same key write the same entry.
  Both hold when the project ids and the emails are free of \<open>|\<close>.
\<close>

definition keys_agree :: "ServiceAccount \<Rightarrow> projectResult list \<Rightarrow> bool" where
  "keys_agree e results =
     list_all (\<lambda>res. Error res = None \<longrightarrow>
        list_all (\<lambda>acc. account_key (ProjectId (Project res)) (Email acc) (UniqueId acc)
                          = account_key (ProjectID e) (Email e) (UniqueId e) \<longrightarrow>
                        ProjectId (Project res) = ProjectID e \<and> Email acc = Email e \<and>
                        UniqueId acc = UniqueId e)
          (ServiceAccounts res))
       results"

definition collision_free :: "projectResult list \<Rightarrow> bool" where
  "collision_free results =
     list_all (\<lambda>(k, v). list_all (\<lambda>(k', v'). k = k' \<longrightarrow> v = v') (concat (map upserts_of results)))
       (concat (map upserts_of results))"

section \<open>The goroutines of concurrentProjectProcessing\<close>

text \<open>
  The concurrent phase as a transition system. A worker (lines 399 to 411) goes through
  these points: \<open>Waiting\<close> before \<open>sem <- struct{}{}\<close>; \<open>Querying\<close> with its permit, before
  \<open>getServiceAccounts\<close> returns; \<open>Sending res\<close> at \<open>results <- res\<close>, which blocks until
  the consumer receives, the channel being unbuffered; \<open>Delivered\<close> when the send has
  returned and the deferred functions are still to run; \<open>Released\<close> after the deferred
  \<open><-sem\<close>, which runs first; \<open>Finished\<close> after the deferred \<open>wg.Done()\<close>.
\<close>

datatype worker_pc =
    Waiting
  | Querying
  | Sending projectResult
  | Delivered
  | Released
  | Finished

text \<open>
  The consumer loop (lines 421 to 442): \<open>Receiving\<close> at the head of the \<open>range\<close>;
  \<open>Locked res\<close> with an outcome in hand, before line 423; \<open>Signalled res\<close> after
  \<open>progress <- 1\<close> and before the branches on \<open>res.Error\<close>; \<open>Returned\<close> after the loop.
\<close>

datatype consumer_pc =
    Receiving
  | Locked projectResult
  | Signalled projectResult
  | Returned

text \<open>
  The shared state: one point per worker, the number of values in the channel \<open>sem\<close>,
  whether \<open>results\<close> is closed, the consumer with the state it reconciles into, the counter
  of the progress reporter (lines 381 to 388), and, for the statements only, the outcomes
  in the order the consumer received them.
\<close>

record system =
  workers :: "worker_pc list"
  permits :: nat
  closed :: bool
  consumer :: consumer_pc
  recon :: recon_state
  reported :: nat
  received :: "projectResult list"

definition initial_system :: "Project list \<Rightarrow> accounts \<Rightarrow> system" where
  "initial_system projects existing =
     \<lparr>workers = replicate (length projects) Waiting, permits = 0, closed = False,
      consumer = Receiving, recon = initial_state existing, reported = 0, received = []\<rparr>"

text \<open>
  One step of one goroutine. \<open>sem\<close> has room for \<open>concurrency\<close> values and \<open>progress\<close>
  for as many as there are projects; a send on a full channel is not enabled. The closer
  (lines 415 to 418) closes \<open>results\<close> when every worker has called \<open>wg.Done()\<close>. The
  mutex is taken by the consumer alone and never blocks.
\<close>

inductive step ::
  "int \<Rightarrow> (string \<Rightarrow> string + ServiceAccount list) \<Rightarrow> Project list \<Rightarrow> system \<Rightarrow> system \<Rightarrow> bool"
  for concurrency :: int and listAccounts :: "string \<Rightarrow> string + ServiceAccount list"
    and projects :: "Project list"
where
  acquire:
    "i < length (workers s) \<Longrightarrow> workers s ! i = Waiting \<Longrightarrow> int (permits s) < concurrency \<Longrightarrow>
     step concurrency listAccounts projects s
       (s\<lparr>workers := (workers s)[i := Querying], permits := Suc (permits s)\<rparr>)"
| query:
    "i < length (workers s) \<Longrightarrow> workers s ! i = Querying \<Longrightarrow>
     step concurrency listAccounts projects s
       (s\<lparr>workers := (workers s)[i := Sending (worker_result listAccounts (projects ! i))]\<rparr>)"
| handoff:
    "i < length (workers s) \<Longrightarrow> workers s ! i = Sending res \<Longrightarrow> consumer s = Receiving \<Longrightarrow>
     step concurrency listAccounts projects s
       (s\<lparr>workers := (workers s)[i := Delivered], consumer := Locked res,
          received := received s @ [res]\<rparr>)"
| release:
    "i < length (workers s) \<Longrightarrow> workers s ! i = Delivered \<Longrightarrow>
     step concurrency listAccounts projects s
       (s\<lparr>workers := (workers s)[i := Released], permits := permits s - 1\<rparr>)"
| wg_done:
    "i < length (workers s) \<Longrightarrow> workers s ! i = Released \<Longrightarrow>
     step concurrency listAccounts projects s (s\<lparr>workers := (workers s)[i := Finished]\<rparr>)"
| close:
    "list_all (\<lambda>w. w = Finished) (workers s) \<Longrightarrow> \<not> closed s \<Longrightarrow>
     step concurrency listAccounts projects s (s\<lparr>closed := True\<rparr>)"
| signal:
    "consumer s = Locked res \<Longrightarrow> length (progress (recon s)) < length projects \<Longrightarrow>
     step concurrency listAccounts projects s
       (s\<lparr>consumer := Signalled res, recon := send_progress (recon s)\<rparr>)"
| reconcile:
    "consumer s = Signalled res \<Longrightarrow>
     step concurrency listAccounts projects s
       (s\<lparr>consumer := Receiving, recon := reconcile_result res (recon s)\<rparr>)"
| return:
    "consumer s = Receiving \<Longrightarrow> closed s \<Longrightarrow>
     step concurrency listAccounts projects s (s\<lparr>consumer := Returned\<rparr>)"
| report:
    "progress (recon s) = v # rest \<Longrightarrow>
     step concurrency listAccounts projects s
       (s\<lparr>recon := (recon s)\<lparr>progress := rest\<rparr>, reported := Suc (reported s)\<rparr>)"

text \<open>
  The states that a run can reach. \<open>make(chan struct{}, concurrency)\<close> panics for a
  negative size, so there is a first state only for \<open>0 \<le> concurrency\<close>.
\<close>

inductive reachable ::
  "int \<Rightarrow> (string \<Rightarrow> string + ServiceAccount list) \<Rightarrow> Project list \<Rightarrow> accounts \<Rightarrow> system \<Rightarrow> bool"
  for concurrency :: int and listAccounts :: "string \<Rightarrow> string + ServiceAccount list"
    and projects :: "Project list" and existing :: accounts
where
  start: "0 \<le> concurrency \<Longrightarrow> reachable concurrency listAccounts projects existing (initial_system projects existing)"
| after: "reachable concurrency listAccounts projects existing s \<Longrightarrow>
         step concurrency listAccounts projects s s' \<Longrightarrow>
         reachable concurrency listAccounts projects existing s'"

text \<open>
  For the statements: the workers that hold a permit, those whose outcome the consumer has
  received, whether the consumer has signalled the outcome in hand or is still to signal
  it, and the outcome in hand.
\<close>

fun holds_permit :: "worker_pc \<Rightarrow> bool" where
  "holds_permit Querying = True"
| "holds_permit (Sending res) = True"
| "holds_permit Delivered = True"
| "holds_permit w = False"

fun handed_over :: "worker_pc \<Rightarrow> bool" where
  "handed_over Delivered = True"
| "handed_over Released = True"
| "handed_over Finished = True"
| "handed_over w = False"

fun signalled_ahead :: "consumer_pc \<Rightarrow> nat" where
  "signalled_ahead (Signalled res) = 1"
| "signalled_ahead c = 0"

fun awaiting_signal :: "consumer_pc \<Rightarrow> nat" where
  "awaiting_signal (Locked res) = 1"
| "awaiting_signal c = 0"

fun in_hand :: "consumer_pc \<Rightarrow> projectResult list" where
  "in_hand (Locked res) = [res]"
| "in_hand (Signalled res) = [res]"
| "in_hand c = []"

text \<open>
  Two reconciliation states with the same store, status list and processed map (the
  progress channel apart), and the outcomes of the workers that have handed over.
\<close>

definition same_data :: "recon_state \<Rightarrow> recon_state \<Rightarrow> bool" where
  "same_data s t =
     (existingAccounts s = existingAccounts t \<and> accessStatuses s = accessStatuses t \<and>
      processed s = processed t)"

definition outcomes_of ::
  "(string \<Rightarrow> string + ServiceAccount list) \<Rightarrow> Project list \<Rightarrow> worker_pc list \<Rightarrow> projectResult list" where
  "outcomes_of listAccounts projects ws =
     map (\<lambda>(w, p). worker_result listAccounts p) (filter (\<lambda>(w, p). handed_over w) (zip ws projects))"

text \<open>The number of steps that are left: every step takes one off.\<close>

fun worker_todo :: "worker_pc \<Rightarrow> nat" where
  "worker_todo Waiting = 8"
| "worker_todo Querying = 7"
| "worker_todo (Sending res) = 6"
| "worker_todo Delivered = 2"
| "worker_todo Released = 1"
| "worker_todo Finished = 0"

fun consumer_todo :: "consumer_pc \<Rightarrow> nat" where
  "consumer_todo Receiving = 1"
| "consumer_todo (Locked res) = 4"
| "consumer_todo (Signalled res) = 2"
| "consumer_todo Returned = 0"

definition todo :: "system \<Rightarrow> nat" where
  "todo s =
     sum_list (map worker_todo (workers s)) + consumer_todo (consumer s) +
     length (progress (recon s)) + (if closed s then 0 else 1)"

text \<open>
  The state in which the workers with the indices \<open>order\<close> have run to their end one after
  the other, in that order, each outcome reconciled before the next worker starts, and
  the other workers have not started.
\<close>

definition served ::
  "(string \<Rightarrow> string + ServiceAccount list) \<Rightarrow> Project list \<Rightarrow> accounts \<Rightarrow> nat list \<Rightarrow> system" where
  "served listAccounts projects existing order =
     \<lparr>workers = map (\<lambda>j. if j \<in> set order then Finished else Waiting) [0..<length projects],
      permits = 0, closed = False, consumer = Receiving,
      recon = fold process_result (map (\<lambda>i. worker_result listAccounts (projects ! i)) order)
                (initial_state existing),
      reported = 0,
      received = map (\<lambda>i. worker_result listAccounts (projects ! i)) order\<rparr>"

section \<open>Basic facts\<close>

lemma mark_step_id: "mark_step processedProjects key existing = existing"
  by (auto simp: mark_step_def fun_upd_idem split: option.splits)

lemma mark_deleted_id: "mark_deleted order processedProjects existing = existing"
  unfolding mark_deleted_def by (induction order) (simp_all add: mark_step_id)

lemma final_accounts_eq:
  "final_accounts order results existing = existingAccounts (concurrentProjectProcessing results existing)"
  by (simp add: final_accounts_def mark_deleted_id)

lemma accessStatuses_process_result:
  "accessStatuses (process_result res s) = accessStatuses s @ [access_of res]"
  by (simp add: process_result_def reconcile_result_def send_progress_def access_of_def)

lemma accessStatuses_fold:
  "accessStatuses (fold process_result results s) = accessStatuses s @ map access_of results"
  by (induction results arbitrary: s) (simp_all add: accessStatuses_process_result)

lemma accessStatuses_run:
  "accessStatuses (concurrentProjectProcessing results existing) = map access_of results"
  by (simp add: concurrentProjectProcessing_def accessStatuses_fold initial_state_def)

section \<open>Facts about encoding/csv\<close>

lemmas csv_reader =
  ReadAll_def ReadAll_loop.simps readRecord.simps readLine_def lengthNL_def parseField.simps
  quotedField.simps

lemmas csv_writer = Write_def Write_field_def fieldNeedsQuotes_def white_space_def

lemma split_line_LF: "split_line (LF # s) = ([LF], s)"
  by (simp add: split_line_def)

lemma split_line_Cons: "c \<noteq> LF \<Longrightarrow> split_line (c # s) = (c # fst (split_line s), snd (split_line s))"
  by (simp add: split_line_def)

lemma split_line_append:
  "LF \<notin> set f \<Longrightarrow> split_line (f @ s) = (f @ fst (split_line s), snd (split_line s))"
  by (induction f) (auto simp: split_line_def)

lemma fst_split_line_ne: "fst (split_line s) \<noteq> []"
  by (simp add: split_line_def)

lemma has_crlf_Cons: "\<not> has_crlf (c # s) \<Longrightarrow> \<not> has_crlf s"
  by (cases s) auto

lemma has_crlf_append: "\<not> has_crlf (a @ s) \<Longrightarrow> \<not> has_crlf s"
  by (induction a) (auto dest: has_crlf_Cons)

lemma no_cr_line:
  "\<not> has_crlf s \<Longrightarrow> LF \<in> set s \<Longrightarrow>
   \<not> (takeWhile (\<lambda>c. c \<noteq> LF) s \<noteq> [] \<and> last (takeWhile (\<lambda>c. c \<noteq> LF) s) = CR)"
proof (induction s rule: has_crlf.induct)
  case (1 c d s)
  then show ?case by (auto split: if_splits)
next
  case (2 c)
  then show ?case by auto
next
  case 3
  then show ?case by simp
qed

lemma readLine_split_line:
  assumes "\<not> has_crlf s" "LF \<in> set s"
  shows "readLine s = (fst (split_line s), snd (split_line s), False)"
proof -
  have "dropWhile (\<lambda>c. c \<noteq> LF) s \<noteq> []"
    using assms(2) by (simp add: dropWhile_eq_Nil_conv)
  with no_cr_line [OF assms] show ?thesis
    by (auto simp only: readLine_def Let_def split_line_def fst_conv snd_conv if_False if_True split: if_splits)
qed

declare split_line_LF [simp] fst_split_line_ne [simp]

lemma quoted_from_plain:
  assumes "c \<noteq> DQ" "c \<noteq> LF"
  shows "quoted_from (c # s) field got = quoted_from s (field @ [c]) got"
proof -
  obtain l r where v: "split_line s = (l, r)" by (cases "split_line s")
  have l: "l \<noteq> []" using fst_split_line_ne [of s] v by simp
  have "quotedField (c # l) r field got = quotedField l r (field @ [c]) got"
    using assms(1) l
    by (subst quotedField.simps, subst (2) quotedField.simps) (simp split: list.splits)
  then show ?thesis
    using assms(2) v by (simp add: quoted_from_def split_line_Cons)
qed

lemma quoted_from_LF:
  assumes "\<not> has_crlf s" "LF \<in> set s"
  shows "quoted_from (LF # s) field got = quoted_from s (field @ [LF]) got"
  unfolding quoted_from_def
  by (subst quotedField.simps) (simp add: readLine_split_line [OF assms])

lemma quoted_from_DQ_DQ:
  "quoted_from (DQ # DQ # s) field got = quoted_from s (field @ [DQ]) got"
  unfolding quoted_from_def
  by (subst quotedField.simps) (simp add: split_line_Cons)

lemma quoted_from_DQ_Comma:
  "quoted_from (DQ # Comma # s) field got = fields_from s (got @ [field])"
  unfolding quoted_from_def fields_from_def
  by (subst quotedField.simps) (simp add: split_line_Cons)

lemma quoted_from_DQ_LF:
  "quoted_from (DQ # LF # s) field got = Inr (got @ [field], s)"
  unfolding quoted_from_def
  by (subst quotedField.simps) (simp add: split_line_Cons)

lemma fields_from_DQ:
  "fields_from (DQ # s) got = quoted_from s [] got"
  unfolding quoted_from_def fields_from_def
  by (subst parseField.simps) (simp add: split_line_Cons)

lemma fields_from_Comma:
  assumes "DQ \<notin> set f" "Comma \<notin> set f" "LF \<notin> set f"
  shows "fields_from (f @ Comma # s) got = fields_from s (got @ [f])"
proof -
  have hd: "f @ Comma # fst (split_line s) = [] \<or> hd (f @ Comma # fst (split_line s)) \<noteq> DQ"
    using assms(1) by (cases f) auto
  have tw: "takeWhile (\<lambda>c. c \<noteq> Comma) (f @ Comma # fst (split_line s)) = f"
    using assms(2) by (induction f) auto
  have dw: "dropWhile (\<lambda>c. c \<noteq> Comma) (f @ Comma # fst (split_line s)) = Comma # fst (split_line s)"
    using assms(2) by (induction f) auto
  show ?thesis
    unfolding fields_from_def
    using assms(1,3) hd
    by (subst parseField.simps) (simp add: split_line_append split_line_Cons tw dw)
qed

lemma fields_from_LF:
  assumes "DQ \<notin> set f" "Comma \<notin> set f" "LF \<notin> set f"
  shows "fields_from (f @ LF # s) got = Inr (got @ [f], s)"
proof -
  have hd: "f @ [LF] = [] \<or> hd (f @ [LF]) \<noteq> DQ"
    using assms(1) by (cases f) auto
  show ?thesis
    unfolding fields_from_def
    using assms hd
    by (subst parseField.simps) (simp add: split_line_append lengthNL_def)
qed

lemma quoted_from_quoted:
  "LF \<in> set s \<Longrightarrow> \<not> has_crlf (quoted f @ s) \<Longrightarrow>
   quoted_from (quoted f @ s) field got = quoted_from s (field @ f) got"
proof (induction f arbitrary: field)
  case Nil
  then show ?case by simp
next
  case (Cons c f)
  show ?case
  proof (cases "c = DQ")
    case True
    with Cons.prems(2) have "\<not> has_crlf (quoted f @ s)"
      by (auto dest: has_crlf_Cons)
    with True Cons.IH [OF Cons.prems(1)] show ?thesis
      by (simp add: quoted_from_DQ_DQ)
  next
    case False
    with Cons.prems(2) have rest: "\<not> has_crlf (quoted f @ s)"
      by (auto dest: has_crlf_Cons)
    show ?thesis
    proof (cases "c = LF")
      case True
      have "LF \<in> set (quoted f @ s)" using Cons.prems(1) by simp
      with True rest Cons.IH [OF Cons.prems(1) rest] show ?thesis
        by (simp add: quoted_from_LF)
    next
      case lf: False
      with False rest Cons.IH [OF Cons.prems(1) rest] show ?thesis
        by (simp add: quoted_from_plain)
    qed
  qed
qed

lemma plain_field:
  assumes "\<not> fieldNeedsQuotes f"
  shows "DQ \<notin> set f \<and> Comma \<notin> set f \<and> LF \<notin> set f \<and> CR \<notin> set f"
proof (cases "f = []")
  case True
  then show ?thesis by simp
next
  case False
  with assms show ?thesis
    by (auto simp: fieldNeedsQuotes_def split: if_splits)
qed

lemma fields_from_Write_field_Comma:
  assumes "LF \<in> set s" "\<not> has_crlf (Write_field f @ Comma # s)"
  shows "fields_from (Write_field f @ Comma # s) got = fields_from s (got @ [f])"
proof (cases "fieldNeedsQuotes f")
  case True
  with assms(2) have "\<not> has_crlf (quoted f @ DQ # Comma # s)"
    by (auto simp: Write_field_def dest: has_crlf_Cons)
  with assms(1) have "quoted_from (quoted f @ DQ # Comma # s) [] got = quoted_from (DQ # Comma # s) ([] @ f) got"
    by (intro quoted_from_quoted) simp_all
  with True show ?thesis
    by (simp add: Write_field_def fields_from_DQ quoted_from_DQ_Comma)
next
  case False
  with plain_field [OF False] show ?thesis
    by (simp add: Write_field_def fields_from_Comma)
qed

lemma fields_from_Write_field_LF:
  assumes "\<not> has_crlf (Write_field f @ LF # s)"
  shows "fields_from (Write_field f @ LF # s) got = Inr (got @ [f], s)"
proof (cases "fieldNeedsQuotes f")
  case True
  with assms have "\<not> has_crlf (quoted f @ DQ # LF # s)"
    by (auto simp: Write_field_def dest: has_crlf_Cons)
  then have "quoted_from (quoted f @ DQ # LF # s) [] got = quoted_from (DQ # LF # s) ([] @ f) got"
    by (intro quoted_from_quoted) simp_all
  with True show ?thesis
    by (simp add: Write_field_def fields_from_DQ quoted_from_DQ_LF)
next
  case False
  with plain_field [OF False] show ?thesis
    by (simp add: Write_field_def fields_from_LF)
qed

lemma fields_from_Write_fields:
  "\<not> has_crlf (Write_field f @ Write_fields (Suc n) gs @ LF # s) \<Longrightarrow>
   fields_from (Write_field f @ Write_fields (Suc n) gs @ LF # s) got = Inr (got @ f # gs, s)"
proof (induction gs arbitrary: f n got)
  case Nil
  then show ?case by (simp add: fields_from_Write_field_LF)
next
  case (Cons g gs)
  let ?rest = "Write_field g @ Write_fields (Suc (Suc n)) gs @ LF # s"
  from Cons.prems have all: "\<not> has_crlf (Write_field f @ Comma # ?rest)"
    by simp
  then have rest: "\<not> has_crlf ?rest"
    by (auto dest: has_crlf_append has_crlf_Cons)
  have "LF \<in> set ?rest" by simp
  then have "fields_from (Write_field f @ Comma # ?rest) got = fields_from ?rest (got @ [f])"
    using all by (rule fields_from_Write_field_Comma)
  also have "\<dots> = Inr ((got @ [f]) @ g # gs, s)"
    using rest by (rule Cons.IH)
  finally show ?case by simp
qed

lemma fields_from_Write:
  assumes "gs \<noteq> []" "\<not> has_crlf (Write gs @ s)"
  shows "fields_from (Write gs @ s) [] = Inr (gs, s)"
proof -
  from assms(1) obtain f fs where r: "gs = f # fs" by (cases gs) auto
  with assms(2) fields_from_Write_fields [of f 0 fs s "[]"] show ?thesis
    by (simp add: Write_def)
qed

lemma Write_field_hd: "Write_field f = [] \<or> hd (Write_field f) \<noteq> LF"
proof (cases "fieldNeedsQuotes f")
  case True
  then show ?thesis by (simp add: Write_field_def)
next
  case False
  with plain_field [OF False] show ?thesis
    by (cases f) (auto simp: Write_field_def)
qed

lemma Write_hd:
  assumes "2 \<le> length fs"
  shows "takeWhile (\<lambda>c. c \<noteq> LF) (Write fs @ s) \<noteq> []"
proof -
  from assms obtain f g gs where fs: "fs = f # g # gs"
    by (cases fs; cases "tl fs") auto
  show ?thesis
    using Write_field_hd [of f]
    by (cases "Write_field f") (auto simp: fs Write_def)
qed

lemma readRecord_Write:
  assumes "2 \<le> length fs" "\<not> has_crlf (Write fs @ s)"
  shows "readRecord (Write fs @ s) = Some (Inr (fs, s))"
proof -
  have lf: "LF \<in> set (Write fs @ s)"
    by (simp add: Write_def)
  have ne: "fs \<noteq> []" using assms(1) by auto
  have "length (fst (split_line (Write fs @ s))) \<noteq> lengthNL (fst (split_line (Write fs @ s)))"
    using Write_hd [OF assms(1), of s] by (simp add: split_line_def lengthNL_def)
  then have "readRecord (Write fs @ s) = Some (fields_from (Write fs @ s) [])"
    by (subst readRecord.simps) (simp add: readLine_split_line [OF assms(2) lf] fields_from_def)
  with fields_from_Write [OF ne assms(2)] show ?thesis by simp
qed

lemma readRecord_Nil: "readRecord [] = None"
  by (subst readRecord.simps) (simp add: readLine_def)

lemma ReadAll_loop_Write:
  "\<forall>fs \<in> set rows. length fs = k \<Longrightarrow> 2 \<le> k \<Longrightarrow> n = 0 \<or> n = k \<Longrightarrow>
   \<not> has_crlf (concat (map Write rows)) \<Longrightarrow>
   ReadAll_loop n (concat (map Write rows)) records = Inr (records @ rows)"
proof (induction rows arbitrary: n records)
  case Nil
  then show ?case by (subst ReadAll_loop.simps) (simp add: readRecord_Nil)
next
  case (Cons fs rows)
  from Cons.prems(1,2) have len: "2 \<le> length fs" "length fs = k" by auto
  from Cons.prems(4) have all: "\<not> has_crlf (Write fs @ concat (map Write rows))" by simp
  then have rest: "\<not> has_crlf (concat (map Write rows))" by (rule has_crlf_append)
  have "ReadAll_loop n (concat (map Write (fs # rows))) records =
        ReadAll_loop k (concat (map Write rows)) (records @ [fs])"
    using Cons.prems(2,3) len(2)
    by (subst ReadAll_loop.simps) (auto simp: readRecord_Write [OF len(1) all])
  also have "\<dots> = Inr ((records @ [fs]) @ rows)"
    using Cons.prems(1,2) rest by (intro Cons.IH) auto
  finally show ?case by simp
qed

lemma ReadAll_Write:
  assumes "\<forall>fs \<in> set rows. length fs = k" "2 \<le> k" "\<not> has_crlf (concat (map Write rows))"
  shows "ReadAll (concat (map Write rows)) = Inr rows"
  using ReadAll_loop_Write [OF assms(1,2) _ assms(3), of 0 "[]"] by (simp add: ReadAll_def)

lemma no_crlf_append:
  "\<not> has_crlf a \<Longrightarrow> \<not> has_crlf b \<Longrightarrow> a = [] \<or> last a \<noteq> CR \<or> b = [] \<or> hd b \<noteq> LF \<Longrightarrow>
   \<not> has_crlf (a @ b)"
proof (induction a rule: has_crlf.induct)
  case (1 c d s)
  then show ?case by auto
next
  case (2 c)
  then show ?case by (cases b) auto
next
  case 3
  then show ?case by simp
qed

lemma quoted_no_crlf: "\<not> has_crlf f \<Longrightarrow> \<not> has_crlf (quoted f)"
proof (induction f rule: has_crlf.induct)
  case (1 c d s)
  then show ?case by auto
next
  case (2 c)
  then show ?case by auto
next
  case 3
  then show ?case by simp
qed

lemma line_ends_kept_append:
  assumes "line_ends_kept a" "line_ends_kept b"
  shows "line_ends_kept (a @ b)"
proof -
  have 1: "\<not> has_crlf (a @ b)"
    using assms unfolding line_ends_kept_def by (intro no_crlf_append) auto
  have 2: "a @ b = [] \<or> last (a @ b) \<noteq> CR"
    using assms unfolding line_ends_kept_def by (cases "b = []") auto
  from 1 2 show ?thesis unfolding line_ends_kept_def by blast
qed

lemma line_ends_kept_Write_field:
  assumes "\<not> has_crlf f"
  shows "line_ends_kept (Write_field f)"
proof (cases "fieldNeedsQuotes f")
  case True
  have 1: "\<not> has_crlf ([DQ] @ quoted f)"
    by (rule no_crlf_append) (simp_all add: quoted_no_crlf [OF assms])
  have "\<not> has_crlf (([DQ] @ quoted f) @ [DQ])"
    by (rule no_crlf_append) (simp_all add: 1 [simplified])
  with True show ?thesis
    by (simp add: line_ends_kept_def Write_field_def)
next
  case False
  with plain_field [OF False] assms show ?thesis
    by (cases f rule: rev_cases) (auto simp: line_ends_kept_def Write_field_def)
qed

lemma line_ends_kept_Write_fields:
  "list_all (\<lambda>f. \<not> has_crlf f) fs \<Longrightarrow> line_ends_kept (Write_fields n fs)"
proof (induction fs arbitrary: n)
  case Nil
  then show ?case by (simp add: line_ends_kept_def)
next
  case (Cons f fs)
  have c: "line_ends_kept (if 0 < n then [Comma] else [])"
    by (simp add: line_ends_kept_def)
  have f: "line_ends_kept (Write_field f)"
    using Cons.prems by (intro line_ends_kept_Write_field) simp
  have r: "line_ends_kept (Write_fields (Suc n) fs)"
    using Cons.prems by (intro Cons.IH) simp
  have "line_ends_kept ((if 0 < n then [Comma] else []) @ (Write_field f @ Write_fields (Suc n) fs))"
    by (intro line_ends_kept_append c f r)
  then show ?case by simp
qed

lemma line_ends_kept_Write:
  "list_all (\<lambda>f. \<not> has_crlf f) fs \<Longrightarrow> line_ends_kept (Write fs)"
  unfolding Write_def
  by (intro line_ends_kept_append line_ends_kept_Write_fields) (simp_all add: line_ends_kept_def)

lemma line_ends_kept_file:
  "list_all (list_all (\<lambda>f. \<not> has_crlf f)) rows \<Longrightarrow> line_ends_kept (concat (map Write rows))"
proof (induction rows)
  case Nil
  then show ?case by (simp add: line_ends_kept_def)
next
  case (Cons fs rows)
  then show ?case
    by (auto intro!: line_ends_kept_append line_ends_kept_Write)
qed

lemma ReadAll_written:
  assumes "\<forall>fs \<in> set rows. length fs = k" "2 \<le> k"
    and "list_all (list_all (\<lambda>f. \<not> has_crlf f)) rows"
  shows "ReadAll (concat (map Write rows)) = Inr rows"
  using assms(1,2) line_ends_kept_file [OF assms(3)]
  by (intro ReadAll_Write) (auto simp: line_ends_kept_def)

lemma parseField_nonempty:
  "parseField line input got = Inr (fs, rest) \<Longrightarrow> fs \<noteq> []"
  "quotedField line input field got = Inr (fs, rest) \<Longrightarrow> fs \<noteq> []"
proof (induction line input got and line input field got rule: parseField_quotedField.induct)
  case (1 line input got)
  note eq = 1(3) [unfolded parseField.simps [of line input got]]
  from eq 1(1) 1(2) show ?case
    by (auto split: if_splits)
next
  case (2 line input field got)
  note eq = 2(4) [unfolded quotedField.simps [of line input field got]]
  show ?case
  proof (cases "DQ \<in> set line")
    case True
    with eq 2(1) 2(2) show ?thesis
      by (auto split: if_splits list.splits)
  next
    case False
    obtain l r e where rl: "readLine input = (l, r, e)"
      by (cases "readLine input") auto
    from False eq have ne: "line \<noteq> []"
      by (auto split: if_splits)
    with False eq rl have "quotedField l r (field @ line) got = Inr (fs, rest)"
      by simp
    with 2(3) [OF False ne rl [symmetric] refl] show ?thesis .
  qed
qed

lemma readRecord_nonempty:
  "readRecord input = Some (Inr (fs, rest)) \<Longrightarrow> fs \<noteq> []"
proof (induction input rule: readRecord.induct)
  case (1 input)
  obtain l r e where rl: "readLine input = (l, r, e)"
    by (cases "readLine input") auto
  note eq = 1(2) [unfolded readRecord.simps [of input] rl, simplified]
  show ?case
  proof (cases "length l = lengthNL l")
    case True
    with eq have e: "\<not> e" and "readRecord r = Some (Inr (fs, rest))"
      by (auto split: if_splits)
    with 1(1) [OF rl [symmetric] refl e True] show ?thesis
      by simp
  next
    case False
    with eq have "parseField l r [] = Inr (fs, rest)"
      by (auto split: if_splits)
    then show ?thesis by (rule parseField_nonempty(1))
  qed
qed

lemma ReadAll_loop_uniform:
  "ReadAll_loop n input records = Inr result \<Longrightarrow> \<forall>r \<in> set records. length r = n \<Longrightarrow>
   n = 0 \<longrightarrow> records = [] \<Longrightarrow> \<exists>k. \<forall>r \<in> set result. length r = k"
proof (induction n input records rule: ReadAll_loop.induct)
  case (1 n input records)
  note eq = 1(2) [unfolded ReadAll_loop.simps [of n input records]]
  show ?case
  proof (cases "readRecord input")
    case None
    with eq 1(3) show ?thesis by auto
  next
    case (Some a)
    show ?thesis
    proof (cases a)
      case (Inl err)
      with Some eq show ?thesis by simp
    next
      case (Inr b)
      obtain fs rest where b: "b = (fs, rest)" by (cases b)
      from Some Inr b have rr: "readRecord input = Some (Inr (fs, rest))" by simp
      have ne: "fs \<noteq> []" using rr by (rule readRecord_nonempty)
      from eq rr have ok: "\<not> (0 < n \<and> length fs \<noteq> n)"
        and next_eq: "ReadAll_loop (if n = 0 then length fs else n) rest (records @ [fs]) = Inr result"
        by (auto split: if_splits)
      show ?thesis
      proof (rule 1(1) [OF rr refl refl ok next_eq])
        show "\<forall>r \<in> set (records @ [fs]). length r = (if n = 0 then length fs else n)"
          using 1(3,4) ok by auto
        show "(if n = 0 then length fs else n) = 0 \<longrightarrow> records @ [fs] = []"
          using ne 1(4) ok by auto
      qed
    qed
  qed
qed

lemma ReadAll_uniform:
  "ReadAll input = Inr records \<Longrightarrow> \<exists>k. \<forall>r \<in> set records. length r = k"
  unfolding ReadAll_def by (erule ReadAll_loop_uniform) simp_all

section \<open>Facts about the store\<close>

lemma readExistingCSV_loop_Suc:
  "readExistingCSV_loop (Suc i) records accounts = fold (load_row row_key) records accounts"
  by (induction records arbitrary: i accounts) (simp_all add: load_row_def row_key_def row_account_def)

lemma readExistingCSV_Cons:
  "ReadAll content = Inr (header # records) \<Longrightarrow>
   readExistingCSV (Some content) = fold (load_row row_key) records Map.empty"
  by (simp add: readExistingCSV_def readExistingCSV_loop_Suc)

lemma loaders_on_error:
  "ReadAll content = Inl err \<Longrightarrow>
   readExistingCSV (Some content) = Map.empty \<and> readExistingCSVForAnalysis (Some content) = Map.empty"
  by (simp add: readExistingCSV_def readExistingCSVForAnalysis_def)

lemma loops_skip_short:
  "\<forall>r \<in> set records. length r < 4 \<Longrightarrow>
   readExistingCSV_loop i records accounts = accounts \<and>
   readExistingCSVForAnalysis_loop i records accounts = accounts"
  by (induction records arbitrary: i) simp_all

lemma short_row_never_skipped:
  "(readExistingCSV (Some content) = Map.empty \<and> readExistingCSVForAnalysis (Some content) = Map.empty)
   \<or> (\<exists>records. ReadAll content = Inr records \<and> (\<forall>row \<in> set records. 4 \<le> length row))"
proof (cases "ReadAll content")
  case (Inl err)
  then show ?thesis by (simp add: loaders_on_error)
next
  case (Inr records)
  from ReadAll_uniform [OF Inr] obtain k where k: "\<forall>r \<in> set records. length r = k" ..
  show ?thesis
  proof (cases "4 \<le> k")
    case True
    with Inr k show ?thesis by auto
  next
    case False
    with k have "\<forall>r \<in> set records. length r < 4" by auto
    from loops_skip_short [OF this] Inr show ?thesis
      by (simp add: readExistingCSV_def readExistingCSVForAnalysis_def)
  qed
qed

lemma set_map_filter_ran:
  "set order = dom accounts \<Longrightarrow> set (List.map_filter accounts order) = ran accounts"
  by (force simp: List.map_filter_def ran_def dom_def image_iff)

lemma find_subject_None:
  "set order = dom accounts \<Longrightarrow>
   List.find (\<lambda>acc. UniqueId acc = t) (List.map_filter accounts order) = None \<longleftrightarrow> \<not> has_subject accounts t"
  by (auto simp: find_None_iff set_map_filter_ran has_subject_def)

lemma find_subject_Some:
  "set order = dom accounts \<Longrightarrow>
   List.find (\<lambda>acc. UniqueId acc = t) (List.map_filter accounts order) = Some acc \<Longrightarrow>
   acc \<in> ran accounts \<and> UniqueId acc = t \<and> has_subject accounts t"
  using set_map_filter_ran [of order accounts]
  by (auto simp: find_Some_iff has_subject_def)

lemma bulk_loop_missing:
  "visits_keys orders accounts \<Longrightarrow>
   snd (bulk_loop orders accounts i raws (found, missing)) =
     missing @ filter (\<lambda>t. \<not> has_subject accounts t) (filter (\<lambda>t. t \<noteq> []) (map TrimSpace raws))"
proof (induction raws arbitrary: i found missing)
  case Nil
  then show ?case by simp
next
  case (Cons rawID raws)
  have o: "set (orders i) = dom accounts"
    using Cons.prems by (simp add: visits_keys_def)
  show ?case
  proof (cases "TrimSpace rawID = []")
    case True
    then show ?thesis using Cons.IH [OF Cons.prems] by simp
  next
    case False
    show ?thesis
    proof (cases "List.find (\<lambda>acc. UniqueId acc = TrimSpace rawID) (List.map_filter accounts (orders i))")
      case None
      then have "\<not> has_subject accounts (TrimSpace rawID)"
        using find_subject_None [OF o] by simp
      with None False show ?thesis using Cons.IH [OF Cons.prems] by simp
    next
      case (Some acc)
      then have "UniqueId acc = TrimSpace rawID" "has_subject accounts (TrimSpace rawID)"
        using find_subject_Some [OF o] by blast+
      with Some False show ?thesis using Cons.IH [OF Cons.prems] by simp
    qed
  qed
qed

lemma bulk_loop_found:
  "visits_keys orders accounts \<Longrightarrow>
   map UniqueId (fst (bulk_loop orders accounts i raws (found, missing))) =
     map UniqueId found @ filter (has_subject accounts) (filter (\<lambda>t. t \<noteq> []) (map TrimSpace raws))"
proof (induction raws arbitrary: i found missing)
  case Nil
  then show ?case by simp
next
  case (Cons rawID raws)
  have o: "set (orders i) = dom accounts"
    using Cons.prems by (simp add: visits_keys_def)
  show ?case
  proof (cases "TrimSpace rawID = []")
    case True
    then show ?thesis using Cons.IH [OF Cons.prems] by simp
  next
    case False
    show ?thesis
    proof (cases "List.find (\<lambda>acc. UniqueId acc = TrimSpace rawID) (List.map_filter accounts (orders i))")
      case None
      then have "\<not> has_subject accounts (TrimSpace rawID)"
        using find_subject_None [OF o] by simp
      with None False show ?thesis using Cons.IH [OF Cons.prems] by simp
    next
      case (Some acc)
      then have "UniqueId acc = TrimSpace rawID" "has_subject accounts (TrimSpace rawID)"
        using find_subject_Some [OF o] by blast+
      with Some False show ?thesis using Cons.IH [OF Cons.prems] by simp
    qed
  qed
qed

lemma bulk_loop_found_stored:
  "visits_keys orders accounts \<Longrightarrow>
   set (fst (bulk_loop orders accounts i raws (found, missing))) \<subseteq> set found \<union> ran accounts"
proof (induction raws arbitrary: i found missing)
  case Nil
  then show ?case by simp
next
  case (Cons rawID raws)
  have o: "set (orders i) = dom accounts"
    using Cons.prems by (simp add: visits_keys_def)
  show ?case
  proof (cases "TrimSpace rawID = []")
    case True
    then show ?thesis using Cons.IH [OF Cons.prems] by simp
  next
    case False
    show ?thesis
    proof (cases "List.find (\<lambda>acc. UniqueId acc = TrimSpace rawID) (List.map_filter accounts (orders i))")
      case None
      with False show ?thesis using Cons.IH [OF Cons.prems] by simp
    next
      case (Some acc)
      then have "acc \<in> ran accounts"
        using find_subject_Some [OF o] by blast
      with Some False show ?thesis
        using Cons.IH [OF Cons.prems, of "Suc i" "found @ [acc]" missing] by auto
    qed
  qed
qed

lemma lookup_tokens_example: "lookup_tokens ''111,333, 222'' = [''111'', ''333'', ''222'']"
  by code_simp

lemma split_at_separator:
  "c \<notin> set a \<Longrightarrow> c \<notin> set a' \<Longrightarrow> a @ c # b = a' @ c # b' \<Longrightarrow> a = a' \<and> b = b'"
proof (induction a arbitrary: a')
  case Nil
  then show ?case by (cases a') auto
next
  case (Cons x a)
  then show ?case by (cases a') auto
qed

lemma account_key_inject:
  assumes "bar_free p" "bar_free e" "bar_free p'" "bar_free e'"
    and "account_key p e u = account_key p' e' u'"
  shows "p = p' \<and> e = e' \<and> u = u'"
proof -
  from assms(5) have "p @ CHR ''|'' # (e @ CHR ''|'' # u) = p' @ CHR ''|'' # (e' @ CHR ''|'' # u')"
    by (simp add: account_key_def)
  with assms(1,3) have p: "p = p'" and r: "e @ CHR ''|'' # u = e' @ CHR ''|'' # u'"
    using split_at_separator [of "CHR ''|''" p p'] by (auto simp: bar_free_def)
  from r assms(2,4) have "e = e' \<and> u = u'"
    using split_at_separator [of "CHR ''|''" e e'] by (auto simp: bar_free_def)
  with p show ?thesis by simp
qed

lemma fold_upsert_put:
  "fold (upsert_account pid) accs m =
   fold put (map (\<lambda>acc. (account_key pid (Email acc) (UniqueId acc),
                       \<lparr>ProjectID = pid, Email = Email acc, UniqueId = UniqueId acc, Status = ''active''\<rparr>)) accs) m"
  by (induction accs arbitrary: m) (simp_all add: upsert_account_def put_def)

lemma existingAccounts_process_result:
  "existingAccounts (process_result res s) = fold put (upserts_of res) (existingAccounts s)"
  by (simp add: process_result_def reconcile_result_def send_progress_def upserts_of_def fold_upsert_put)

lemma existingAccounts_fold:
  "existingAccounts (fold process_result results s) =
   fold put (concat (map upserts_of results)) (existingAccounts s)"
  by (induction results arbitrary: s) (simp_all add: existingAccounts_process_result)

lemma final_accounts_puts:
  "final_accounts order results existing = fold put (concat (map upserts_of results)) existing"
  by (simp add: final_accounts_eq concurrentProjectProcessing_def existingAccounts_fold initial_state_def)

lemma fold_put_other:
  "k \<notin> fst ` set kvs \<Longrightarrow> fold put kvs m k = m k"
  by (induction kvs arbitrary: m) (auto simp: put_def)

lemma fold_put_in:
  "k \<in> fst ` set kvs \<Longrightarrow> \<exists>v. (k, v) \<in> set kvs \<and> fold put kvs m k = Some v"
proof (induction kvs arbitrary: m)
  case Nil
  then show ?case by simp
next
  case (Cons kv kvs)
  show ?case
  proof (cases "k \<in> fst ` set kvs")
    case True
    from Cons.IH [OF True, of "put kv m"] show ?thesis by auto
  next
    case False
    with Cons.prems have k: "fst kv = k" by auto
    have "fold put (kv # kvs) m k = put kv m k"
      using False by (simp add: fold_put_other)
    also have "\<dots> = Some (snd kv)"
      using k by (simp add: put_def)
    finally have "fold put (kv # kvs) m k = Some (snd kv)" .
    moreover have "(k, snd kv) \<in> set (kv # kvs)"
      using k by (cases kv) simp
    ultimately show ?thesis by blast
  qed
qed

lemma fold_put_same:
  "\<forall>(k, v) \<in> set kvs. m k = Some v \<Longrightarrow> fold put kvs m = m"
proof (induction kvs arbitrary: m)
  case Nil
  then show ?case by simp
next
  case (Cons kv kvs)
  then have "put kv m = m"
    by (cases kv) (auto simp: put_def fun_upd_idem)
  with Cons show ?case by simp
qed

lemma well_keyed_put:
  "well_keyed m \<Longrightarrow> fst kv = account_key (ProjectID (snd kv)) (Email (snd kv)) (UniqueId (snd kv)) \<Longrightarrow>
   well_keyed (put kv m)"
  by (auto simp: well_keyed_def put_def)

lemma well_keyed_fold_put:
  "well_keyed m \<Longrightarrow>
   \<forall>kv \<in> set kvs. fst kv = account_key (ProjectID (snd kv)) (Email (snd kv)) (UniqueId (snd kv)) \<Longrightarrow>
   well_keyed (fold put kvs m)"
  by (induction kvs arbitrary: m) (simp_all add: well_keyed_put)

lemma upserts_keyed:
  "kv \<in> set (concat (map upserts_of results)) \<Longrightarrow>
   fst kv = account_key (ProjectID (snd kv)) (Email (snd kv)) (UniqueId (snd kv))"
  by (auto simp: upserts_of_def split: if_splits)

lemma well_keyed_final:
  "well_keyed existing \<Longrightarrow> well_keyed (final_accounts order results existing)"
  unfolding final_accounts_puts
  using upserts_keyed by (intro well_keyed_fold_put) blast+

lemma well_keyed_fold_load_row:
  "well_keyed m \<Longrightarrow> well_keyed (fold (load_row row_key) rows m)"
proof (induction rows arbitrary: m)
  case Nil
  then show ?case by simp
next
  case (Cons row rows)
  have "well_keyed (load_row row_key row m)"
    using Cons.prems by (simp add: load_row_def well_keyed_def row_key_def row_account_def)
  then show ?case using Cons.IH by simp
qed

lemma well_keyed_readExistingCSV: "well_keyed (readExistingCSV file)"
proof -
  have e: "well_keyed (Map.empty :: accounts)"
    by (simp add: well_keyed_def)
  have "well_keyed (readExistingCSV_loop 0 records Map.empty)" for records
  proof (cases records)
    case Nil
    with e show ?thesis by simp
  next
    case (Cons header rows)
    with e show ?thesis
      by (simp add: readExistingCSV_loop_Suc well_keyed_fold_load_row)
  qed
  then show ?thesis
    by (simp add: readExistingCSV_def e split: option.splits sum.splits)
qed

lemma upserts_memD:
  assumes "(k, v) \<in> set (concat (map upserts_of results))"
  obtains res acc where "res \<in> set results" "Error res = None" "acc \<in> set (ServiceAccounts res)"
    "k = account_key (ProjectId (Project res)) (Email acc) (UniqueId acc)"
    "v = \<lparr>ProjectID = ProjectId (Project res), Email = Email acc, UniqueId = UniqueId acc, Status = ''active''\<rparr>"
  using assms by (auto simp: upserts_of_def split: if_splits)

lemma upserts_memI:
  "res \<in> set results \<Longrightarrow> Error res = None \<Longrightarrow> acc \<in> set (ServiceAccounts res) \<Longrightarrow>
   (account_key (ProjectId (Project res)) (Email acc) (UniqueId acc),
    \<lparr>ProjectID = ProjectId (Project res), Email = Email acc, UniqueId = UniqueId acc, Status = ''active''\<rparr>)
   \<in> set (concat (map upserts_of results))"
  by (auto simp: upserts_of_def)

lemma results_bar_freeD:
  "results_bar_free results \<Longrightarrow> res \<in> set results \<Longrightarrow> Error res = None \<Longrightarrow> acc \<in> set (ServiceAccounts res) \<Longrightarrow>
   bar_free (ProjectId (Project res)) \<and> bar_free (Email acc)"
  by (auto simp: results_bar_free_def outcome_bar_free_def list_all_iff)

lemma upserts_consistent:
  assumes "results_bar_free results"
    and "(k, v) \<in> set (concat (map upserts_of results))"
    and "(k, v') \<in> set (concat (map upserts_of results))"
  shows "v = v'"
proof -
  from assms(2) obtain res acc where 1: "res \<in> set results" "Error res = None" "acc \<in> set (ServiceAccounts res)"
    "k = account_key (ProjectId (Project res)) (Email acc) (UniqueId acc)"
    "v = \<lparr>ProjectID = ProjectId (Project res), Email = Email acc, UniqueId = UniqueId acc, Status = ''active''\<rparr>"
    by (rule upserts_memD)
  from assms(3) obtain res' acc' where 2: "res' \<in> set results" "Error res' = None" "acc' \<in> set (ServiceAccounts res')"
    "k = account_key (ProjectId (Project res')) (Email acc') (UniqueId acc')"
    "v' = \<lparr>ProjectID = ProjectId (Project res'), Email = Email acc', UniqueId = UniqueId acc', Status = ''active''\<rparr>"
    by (rule upserts_memD)
  have "bar_free (ProjectId (Project res))" "bar_free (Email acc)"
    "bar_free (ProjectId (Project res'))" "bar_free (Email acc')"
    using results_bar_freeD [OF assms(1)] 1(1-3) 2(1-3) by blast+
  then have "ProjectId (Project res) = ProjectId (Project res') \<and> Email acc = Email acc' \<and> UniqueId acc = UniqueId acc'"
    using 1(4) 2(4) by (intro account_key_inject) simp_all
  with 1(5) 2(5) show ?thesis by simp
qed

lemma bar_free_collision_free:
  assumes "results_bar_free results"
  shows "collision_free results"
  unfolding collision_free_def list_all_iff
  using upserts_consistent [OF assms] by blast

lemma collision_freeD:
  "collision_free results \<Longrightarrow> (k, v) \<in> set (concat (map upserts_of results)) \<Longrightarrow>
   (k, v') \<in> set (concat (map upserts_of results)) \<Longrightarrow> v = v'"
  unfolding collision_free_def list_all_iff by blast

lemma keys_agreeD:
  "keys_agree e results \<Longrightarrow> res \<in> set results \<Longrightarrow> Error res = None \<Longrightarrow>
   acc \<in> set (ServiceAccounts res) \<Longrightarrow>
   account_key (ProjectId (Project res)) (Email acc) (UniqueId acc) =
     account_key (ProjectID e) (Email e) (UniqueId e) \<Longrightarrow>
   ProjectId (Project res) = ProjectID e \<and> Email acc = Email e \<and> UniqueId acc = UniqueId e"
  unfolding keys_agree_def list_all_iff by blast

lemma bar_free_keys_agree:
  assumes "bar_free (ProjectID e)" and "bar_free (Email e)" and "results_bar_free results"
  shows "keys_agree e results"
  unfolding keys_agree_def list_all_iff
proof (intro ballI impI)
  fix res acc
  assume r: "res \<in> set results" "Error res = None" "acc \<in> set (ServiceAccounts res)"
    and k: "account_key (ProjectId (Project res)) (Email acc) (UniqueId acc) =
            account_key (ProjectID e) (Email e) (UniqueId e)"
  have "bar_free (ProjectId (Project res))" "bar_free (Email acc)"
    using results_bar_freeD [OF assms(3)] r by blast+
  with assms(1,2) k
  show "ProjectId (Project res) = ProjectID e \<and> Email acc = Email e \<and> UniqueId acc = UniqueId e"
    by (intro account_key_inject) simp_all
qed

lemma final_at_upsert:
  assumes "collision_free results"
    and "(k, v) \<in> set (concat (map upserts_of results))"
  shows "final_accounts order results existing k = Some v"
proof -
  from assms(2) have "k \<in> fst ` set (concat (map upserts_of results))"
    by force
  from fold_put_in [OF this, of existing] obtain v'
    where "(k, v') \<in> set (concat (map upserts_of results))"
      and "fold put (concat (map upserts_of results)) existing k = Some v'"
    by blast
  with collision_freeD [OF assms(1) assms(2)] show ?thesis
    by (simp add: final_accounts_puts)
qed

lemma final_at_reappearing:
  assumes "keys_agree e results" and "reappears e results"
  shows "final_accounts order results existing (account_key (ProjectID e) (Email e) (UniqueId e))
           = Some (e\<lparr>Status := ''active''\<rparr>)"
proof -
  let ?k = "account_key (ProjectID e) (Email e) (UniqueId e)"
  from assms(2) obtain res acc where r: "res \<in> set results" "Error res = None"
    "ProjectId (Project res) = ProjectID e" "acc \<in> set (ServiceAccounts res)"
    "Email acc = Email e" "UniqueId acc = UniqueId e"
    by (auto simp: reappears_def list_ex_iff)
  have "(?k, e\<lparr>Status := ''active''\<rparr>) \<in> set (concat (map upserts_of results))"
    using upserts_memI [OF r(1,2,4)] r(3,5,6) by (cases e) simp
  then have "?k \<in> fst ` set (concat (map upserts_of results))"
    by force
  from fold_put_in [OF this, of existing] obtain v
    where v: "(?k, v) \<in> set (concat (map upserts_of results))"
      and f: "fold put (concat (map upserts_of results)) existing ?k = Some v"
    by blast
  from v obtain res' acc' where r': "res' \<in> set results" "Error res' = None"
    "acc' \<in> set (ServiceAccounts res')"
    "?k = account_key (ProjectId (Project res')) (Email acc') (UniqueId acc')"
    "v = \<lparr>ProjectID = ProjectId (Project res'), Email = Email acc', UniqueId = UniqueId acc', Status = ''active''\<rparr>"
    by (rule upserts_memD)
  from keys_agreeD [OF assms(1) r'(1-3)] r'(4)
  have "ProjectId (Project res') = ProjectID e \<and> Email acc' = Email e \<and> UniqueId acc' = UniqueId e"
    by simp
  with r'(5) have "v = e\<lparr>Status := ''active''\<rparr>"
    by (cases e) simp
  with f show ?thesis
    by (simp add: final_accounts_puts)
qed

lemma final_untouched:
  assumes "existing k = Some e"
    and "k = account_key (ProjectID e) (Email e) (UniqueId e)"
    and "no_success (ProjectID e) results"
    and "keys_agree e results"
  shows "final_accounts order results existing k = Some e"
proof -
  have "k \<notin> fst ` set (concat (map upserts_of results))"
  proof
    assume "k \<in> fst ` set (concat (map upserts_of results))"
    then obtain v where "(k, v) \<in> set (concat (map upserts_of results))"
      by force
    then obtain res acc where r: "res \<in> set results" "Error res = None" "acc \<in> set (ServiceAccounts res)"
      "k = account_key (ProjectId (Project res)) (Email acc) (UniqueId acc)"
      by (rule upserts_memD)
    from keys_agreeD [OF assms(4) r(1-3)] r(4) assms(2)
    have "ProjectId (Project res) = ProjectID e"
      by simp
    with assms(3) r(1) have "Error res \<noteq> None"
      by (auto simp: no_success_def list_all_iff)
    with r(2) show False by simp
  qed
  then show ?thesis
    using assms(1) by (simp add: final_accounts_puts fold_put_other)
qed

lemma load_account_row:
  "load_row row_key (account_row acc) m = m(account_key (ProjectID acc) (Email acc) (UniqueId acc) \<mapsto> acc)"
  by (cases acc) (simp add: load_row_def account_row_def row_key_def row_account_def)

lemma fold_load_written:
  "well_keyed m \<Longrightarrow>
   fold (load_row row_key) (List.map_filter (\<lambda>key. map_option account_row (m key)) order) m0 k =
     (if k \<in> set order \<and> m k \<noteq> None then m k else m0 k)"
proof (induction order arbitrary: m0)
  case Nil
  then show ?case by simp
next
  case (Cons key order)
  show ?case
  proof (cases "m key")
    case None
    with Cons show ?thesis by auto
  next
    case (Some acc)
    with Cons.prems have key: "key = account_key (ProjectID acc) (Email acc) (UniqueId acc)"
      by (simp add: well_keyed_def)
    have "fold (load_row row_key) (List.map_filter (\<lambda>key. map_option account_row (m key)) (key # order)) m0 k =
          fold (load_row row_key) (List.map_filter (\<lambda>key. map_option account_row (m key)) order) (m0(key \<mapsto> acc)) k"
      using Some key by (simp add: load_account_row)
    also have "\<dots> = (if k \<in> set order \<and> m k \<noteq> None then m k else (m0(key \<mapsto> acc)) k)"
      by (rule Cons.IH [OF Cons.prems])
    finally show ?thesis
      using Some by auto
  qed
qed

lemma read_written:
  assumes "well_keyed m" "set order = dom m" "no_crlf_written order m"
  shows "readExistingCSV (Some (writeCSV order m)) = m"
proof
  fix k
  let ?rows = "List.map_filter (\<lambda>key. map_option account_row (m key)) order"
  let ?header = "[''ProjectID'', ''Email'', ''SubjectID'', ''Status'']"
  have len: "\<forall>fs \<in> set (?header # ?rows). length fs = 4"
    by (auto simp: List.map_filter_def account_row_def)
  have crlf: "list_all (list_all (\<lambda>f. \<not> has_crlf f)) (?header # ?rows)"
    using assms(3) by (simp add: no_crlf_written_def)
  have "ReadAll (concat (map Write (?header # ?rows))) = Inr (?header # ?rows)"
    using len _ crlf by (rule ReadAll_written) simp
  then have "readExistingCSV (Some (writeCSV order m)) = fold (load_row row_key) ?rows Map.empty"
    unfolding writeCSV_def by (rule readExistingCSV_Cons)
  then show "readExistingCSV (Some (writeCSV order m)) k = m k"
    using assms(2) by (auto simp: fold_load_written [OF assms(1)])
qed

section \<open>Facts about the goroutines\<close>

lemma count_update:
  "i < length ws \<Longrightarrow>
   length (filter P (ws[i := w])) + (if P (ws ! i) then 1 else 0) =
   length (filter P ws) + (if P w then 1 else 0)"
proof (induction ws arbitrary: i)
  case Nil
  then show ?case by simp
next
  case (Cons a ws)
  then show ?case by (cases i) auto
qed

lemma permits_invariant:
  assumes "reachable concurrency listAccounts projects existing s"
  shows "permits s = length (filter holds_permit (workers s)) \<and> int (permits s) \<le> concurrency"
  using assms
proof (induction rule: reachable.induct)
  case start
  then show ?case by (simp add: initial_system_def)
next
  case (after s s')
  from after.hyps(2) after.IH show ?case
  proof (cases rule: step.cases)
    case (acquire i)
    with after.IH count_update [of i "workers s" holds_permit Querying] show ?thesis by simp
  next
    case (query i)
    with after.IH count_update [of i "workers s" holds_permit "Sending (worker_result listAccounts (projects ! i))"]
    show ?thesis by simp
  next
    case (handoff i res)
    with after.IH count_update [of i "workers s" holds_permit Delivered] show ?thesis by simp
  next
    case (release i)
    with after.IH count_update [of i "workers s" holds_permit Released] show ?thesis by simp
  next
    case (wg_done i)
    with after.IH count_update [of i "workers s" holds_permit Finished] show ?thesis by simp
  qed simp_all
qed

lemma signals_invariant:
  assumes "reachable concurrency listAccounts projects existing s"
  shows "length (progress (recon s)) + reported s =
           length (accessStatuses (recon s)) + signalled_ahead (consumer s)
       \<and> length (accessStatuses (recon s)) + signalled_ahead (consumer s) + awaiting_signal (consumer s)
           = length (received s)"
  using assms
proof (induction rule: reachable.induct)
  case start
  then show ?case by (simp add: initial_system_def initial_state_def)
next
  case (after s s')
  from after.hyps(2) after.IH show ?case
    by (cases rule: step.cases) (auto simp: send_progress_def reconcile_result_def)
qed

lemma workers_length:
  assumes "reachable concurrency listAccounts projects existing s"
  shows "length (workers s) = length projects"
  using assms
proof (induction rule: reachable.induct)
  case start
  then show ?case by (simp add: initial_system_def)
next
  case (after s s')
  from after.hyps(2) after.IH show ?case
    by (cases rule: step.cases) auto
qed

lemma sending_is_worker_result:
  assumes "reachable concurrency listAccounts projects existing s"
    and "i < length (workers s)" and "workers s ! i = Sending res"
  shows "res = worker_result listAccounts (projects ! i)"
  using assms
proof (induction arbitrary: i res rule: reachable.induct)
  case start
  then show ?case by (simp add: initial_system_def)
next
  case (after s s')
  from after.hyps(2) after.prems after.IH show ?case
    by (cases rule: step.cases) (auto simp: nth_list_update split: if_splits)
qed

lemma outcomes_of_update_same:
  "i < length ws \<Longrightarrow> handed_over (ws ! i) = handed_over w \<Longrightarrow>
   outcomes_of listAccounts projects (ws[i := w]) = outcomes_of listAccounts projects ws"
proof (induction ws arbitrary: i projects)
  case Nil
  then show ?case by simp
next
  case (Cons a ws)
  show ?case
  proof (cases projects)
    case Nil
    then show ?thesis by (simp add: outcomes_of_def)
  next
    case (Cons p ps)
    with Cons.prems Cons.IH [of _ ps] show ?thesis
      by (cases i) (auto simp: outcomes_of_def)
  qed
qed

lemma outcomes_of_update_new:
  "i < length ws \<Longrightarrow> i < length projects \<Longrightarrow> \<not> handed_over (ws ! i) \<Longrightarrow> handed_over w \<Longrightarrow>
   mset (outcomes_of listAccounts projects (ws[i := w])) =
     add_mset (worker_result listAccounts (projects ! i)) (mset (outcomes_of listAccounts projects ws))"
proof (induction ws arbitrary: i projects)
  case Nil
  then show ?case by simp
next
  case (Cons a ws)
  show ?case
  proof (cases projects)
    case Nil
    with Cons.prems show ?thesis by simp
  next
    case (Cons p ps)
    with Cons.prems Cons.IH [of _ ps] show ?thesis
      by (cases i) (auto simp: outcomes_of_def)
  qed
qed

lemma outcomes_of_waiting:
  "outcomes_of listAccounts projects (replicate n Waiting) = []"
  by (auto simp: outcomes_of_def filter_empty_conv dest: set_zip_leftD)

lemma received_outcomes:
  assumes "reachable concurrency listAccounts projects existing s"
  shows "mset (received s) = mset (outcomes_of listAccounts projects (workers s))"
  using assms
proof (induction rule: reachable.induct)
  case start
  then show ?case by (simp add: initial_system_def outcomes_of_waiting)
next
  case (after s s')
  note len = workers_length [OF after.hyps(1)]
  from after.hyps(2) show ?case
  proof (cases rule: step.cases)
    case (handoff i res)
    have "res = worker_result listAccounts (projects ! i)"
      using sending_is_worker_result [OF after.hyps(1)] handoff by blast
    with handoff after.IH len show ?thesis
      by (simp add: outcomes_of_update_new)
  qed (use after.IH in \<open>simp_all add: outcomes_of_update_same\<close>)
qed

lemma outcomes_of_all:
  "length ws = length projects \<Longrightarrow> list_all (\<lambda>w. w = Finished) ws \<Longrightarrow>
   outcomes_of listAccounts projects ws = map (worker_result listAccounts) projects"
proof (induction ws arbitrary: projects)
  case Nil
  then show ?case by (simp add: outcomes_of_def)
next
  case (Cons a ws)
  then show ?case by (cases projects) (auto simp: outcomes_of_def)
qed

lemma closed_finished:
  assumes "reachable concurrency listAccounts projects existing s" and "closed s"
  shows "list_all (\<lambda>w. w = Finished) (workers s)"
  using assms
proof (induction rule: reachable.induct)
  case start
  then show ?case by (simp add: initial_system_def)
next
  case (after s s')
  from after.hyps(2) after.prems after.IH show ?case
    by (cases rule: step.cases) (auto simp: list_all_length)
qed

lemma returned_closed:
  assumes "reachable concurrency listAccounts projects existing s" and "consumer s = Returned"
  shows "closed s"
  using assms
proof (induction rule: reachable.induct)
  case start
  then show ?case by (simp add: initial_system_def)
next
  case (after s s')
  from after.hyps(2) after.prems after.IH show ?case
    by (cases rule: step.cases) auto
qed

lemma same_data_reconcile:
  "same_data s t \<Longrightarrow> same_data (reconcile_result res s) (process_result res t)"
  by (simp add: same_data_def process_result_def reconcile_result_def send_progress_def)

lemma reconciled_prefix:
  assumes "reachable concurrency listAccounts projects existing s"
  shows "\<exists>finished. received s = finished @ in_hand (consumer s) \<and>
           same_data (recon s) (fold process_result finished (initial_state existing))"
  using assms
proof (induction rule: reachable.induct)
  case start
  then show ?case by (simp add: initial_system_def same_data_def)
next
  case (after s s')
  from after.IH obtain finished where f: "received s = finished @ in_hand (consumer s)"
    and d: "same_data (recon s) (fold process_result finished (initial_state existing))"
    by blast
  from after.hyps(2) show ?case
  proof (cases rule: step.cases)
    case (reconcile res)
    with f d have "received s' = (finished @ [res]) @ in_hand (consumer s')"
      and "same_data (recon s') (fold process_result (finished @ [res]) (initial_state existing))"
      by (simp_all add: same_data_reconcile)
    then show ?thesis by blast
  next
    case (signal res)
    with f d show ?thesis
      by (auto simp: same_data_def send_progress_def)
  next
    case (report v rest)
    with f d show ?thesis
      by (auto simp: same_data_def)
  qed (use f d in auto)
qed

lemma returned_run:
  assumes "reachable concurrency listAccounts projects existing s" and "consumer s = Returned"
  shows "arrival_of listAccounts projects (received s) \<and>
         same_data (recon s) (concurrentProjectProcessing (received s) existing)"
proof -
  have "list_all (\<lambda>w. w = Finished) (workers s)"
    using closed_finished [OF assms(1)] returned_closed [OF assms] by blast
  then have "outcomes_of listAccounts projects (workers s) = map (worker_result listAccounts) projects"
    using workers_length [OF assms(1)] by (simp add: outcomes_of_all)
  with received_outcomes [OF assms(1)] have "arrival_of listAccounts projects (received s)"
    by (simp add: arrival_of_def)
  moreover from reconciled_prefix [OF assms(1)] assms(2)
  have "same_data (recon s) (concurrentProjectProcessing (received s) existing)"
    by (auto simp: concurrentProjectProcessing_def)
  ultimately show ?thesis by simp
qed

lemma sum_list_update_todo:
  "i < length ws \<Longrightarrow>
   sum_list (map worker_todo (ws[i := w])) + worker_todo (ws ! i) =
   sum_list (map worker_todo ws) + worker_todo w"
proof (induction ws arbitrary: i)
  case Nil
  then show ?case by simp
next
  case (Cons a ws)
  then show ?case by (cases i) auto
qed

lemma step_todo:
  assumes "step concurrency listAccounts projects s s'"
  shows "todo s' < todo s"
  using assms
proof (cases rule: step.cases)
  case (acquire i)
  with sum_list_update_todo [of i "workers s" Querying] show ?thesis
    by (simp add: todo_def)
next
  case (query i)
  with sum_list_update_todo [of i "workers s" "Sending (worker_result listAccounts (projects ! i))"]
  show ?thesis by (simp add: todo_def)
next
  case (handoff i res)
  with sum_list_update_todo [of i "workers s" Delivered] show ?thesis
    by (simp add: todo_def)
next
  case (release i)
  with sum_list_update_todo [of i "workers s" Released] show ?thesis
    by (simp add: todo_def)
next
  case (wg_done i)
  with sum_list_update_todo [of i "workers s" Finished] show ?thesis
    by (simp add: todo_def)
qed (simp_all add: todo_def send_progress_def reconcile_result_def)

lemma received_bound:
  assumes "reachable concurrency listAccounts projects existing s"
  shows "length (received s) \<le> length projects"
proof -
  have "length (received s) = length (outcomes_of listAccounts projects (workers s))"
    using received_outcomes [OF assms] by (metis size_mset)
  also have "\<dots> = length (filter (\<lambda>(w, p). handed_over w) (zip (workers s) projects))"
    by (simp add: outcomes_of_def)
  also have "\<dots> \<le> length (zip (workers s) projects)"
    by (rule length_filter_le)
  also have "\<dots> \<le> length projects"
    by simp
  finally show ?thesis .
qed

lemma idle_workers:
  assumes "\<forall>i < length ws. ws ! i = Waiting \<or> ws ! i = Finished"
  shows "length (filter holds_permit ws) = 0"
proof -
  have "\<not> holds_permit w" if "w \<in> set ws" for w
  proof -
    from that obtain i where "i < length ws" "ws ! i = w"
      by (auto simp: in_set_conv_nth)
    with assms have "w = Waiting \<or> w = Finished" by blast
    then show ?thesis by auto
  qed
  then show ?thesis by (simp add: filter_empty_conv)
qed

lemma not_stuck:
  assumes r: "reachable concurrency listAccounts projects existing s"
    and c: "0 < concurrency" and n: "consumer s \<noteq> Returned"
  shows "\<exists>s'. step concurrency listAccounts projects s s'"
proof (cases "consumer s")
  case Receiving
  show ?thesis
  proof (cases "closed s")
    case True
    with Receiving show ?thesis using step.return by blast
  next
    case False
    show ?thesis
    proof (cases "list_all (\<lambda>w. w = Finished) (workers s)")
      case True
      with False show ?thesis using step.close by blast
    next
      case nf: False
      show ?thesis
      proof (cases "\<forall>i < length (workers s). workers s ! i = Waiting \<or> workers s ! i = Finished")
        case True
        from nf obtain i where i: "i < length (workers s)" "workers s ! i \<noteq> Finished"
          by (auto simp: list_all_length)
        with True have w: "workers s ! i = Waiting" by blast
        have "permits s = 0"
          using permits_invariant [OF r] idle_workers [OF True] by simp
        with c have "int (permits s) < concurrency" by simp
        with i(1) w show ?thesis using step.acquire by blast
      next
        case False
        then obtain i where i: "i < length (workers s)" "workers s ! i \<noteq> Waiting" "workers s ! i \<noteq> Finished"
          by blast
        then show ?thesis
        proof (cases "workers s ! i")
          case Querying
          with i(1) show ?thesis using step.query by blast
        next
          case (Sending res)
          with i(1) Receiving show ?thesis using step.handoff by blast
        next
          case Delivered
          with i(1) show ?thesis using step.release by blast
        next
          case Released
          with i(1) show ?thesis using step.wg_done by blast
        qed simp_all
      qed
    qed
  qed
next
  case (Locked res)
  have "length (progress (recon s)) < length projects"
    using signals_invariant [OF r] received_bound [OF r] Locked by simp
  with Locked show ?thesis using step.signal by blast
next
  case (Signalled res)
  then show ?thesis using step.reconcile by blast
next
  case Returned
  with n show ?thesis by simp
qed

lemma can_return:
  assumes "reachable concurrency listAccounts projects existing s" and "0 < concurrency"
  shows "\<exists>s'. reachable concurrency listAccounts projects existing s' \<and> consumer s' = Returned"
  using assms
proof (induction "todo s" arbitrary: s rule: less_induct)
  case less
  show ?case
  proof (cases "consumer s = Returned")
    case True
    with less.prems(1) show ?thesis by blast
  next
    case False
    from not_stuck [OF less.prems(1) less.prems(2) False] obtain s'
      where s': "step concurrency listAccounts projects s s'" by blast
    have "reachable concurrency listAccounts projects existing s'"
      using less.prems(1) s' by (rule reachable.after)
    with less.hyps [OF step_todo [OF s']] less.prems(2) show ?thesis by blast
  qed
qed

lemma progress_fold:
  "length (progress (fold process_result results s)) = length (progress s) + length results"
  by (induction results arbitrary: s)
    (simp_all add: process_result_def reconcile_result_def send_progress_def)

lemma served_workers_update:
  "i < n \<Longrightarrow>
   (map (\<lambda>j. if j \<in> set order then Finished else Waiting) [0..<n])[i := Finished] =
   map (\<lambda>j. if j \<in> set (order @ [i]) then Finished else Waiting) [0..<n]"
  by (rule nth_equalityI) (auto simp: nth_list_update)

lemma serve_one:
  assumes r: "reachable concurrency listAccounts projects existing (served listAccounts projects existing order)"
    and c: "0 < concurrency" and i: "i < length projects" and n: "i \<notin> set order"
    and l: "length order < length projects"
  shows "reachable concurrency listAccounts projects existing (served listAccounts projects existing (order @ [i]))"
proof -
  let ?W = "map (\<lambda>j. if j \<in> set order then Finished else Waiting) [0..<length projects]"
  let ?rs = "map (\<lambda>i. worker_result listAccounts (projects ! i)) order"
  let ?R = "fold process_result ?rs (initial_state existing)"
  let ?r = "worker_result listAccounts (projects ! i)"
  let ?s0 = "\<lparr>workers = ?W, permits = 0, closed = False, consumer = Receiving, recon = ?R,
      reported = 0, received = ?rs\<rparr>"
  let ?s1 = "\<lparr>workers = ?W[i := Querying], permits = Suc 0, closed = False, consumer = Receiving,
      recon = ?R, reported = 0, received = ?rs\<rparr>"
  let ?s2 = "\<lparr>workers = ?W[i := Sending ?r], permits = Suc 0, closed = False, consumer = Receiving,
      recon = ?R, reported = 0, received = ?rs\<rparr>"
  let ?s3 = "\<lparr>workers = ?W[i := Delivered], permits = Suc 0, closed = False, consumer = Locked ?r,
      recon = ?R, reported = 0, received = ?rs @ [?r]\<rparr>"
  let ?s4 = "\<lparr>workers = ?W[i := Released], permits = 0, closed = False, consumer = Locked ?r,
      recon = ?R, reported = 0, received = ?rs @ [?r]\<rparr>"
  let ?s5 = "\<lparr>workers = ?W[i := Finished], permits = 0, closed = False, consumer = Locked ?r,
      recon = ?R, reported = 0, received = ?rs @ [?r]\<rparr>"
  let ?s6 = "\<lparr>workers = ?W[i := Finished], permits = 0, closed = False, consumer = Signalled ?r,
      recon = send_progress ?R, reported = 0, received = ?rs @ [?r]\<rparr>"
  let ?s7 = "\<lparr>workers = ?W[i := Finished], permits = 0, closed = False, consumer = Receiving,
      recon = reconcile_result ?r (send_progress ?R), reported = 0, received = ?rs @ [?r]\<rparr>"
  let ?reach = "reachable concurrency listAccounts projects existing"
  let ?step = "step concurrency listAccounts projects"
  have w: "?W ! i = Waiting" and len: "i < length ?W"
    using i n by simp_all
  have 0: "?reach ?s0"
    using r by (simp add: served_def)
  have "?step ?s0 ?s1"
    using step.acquire [where i = i and s = ?s0 and concurrency = concurrency] w len c by simp
  with 0 have 1: "?reach ?s1" by (rule reachable.after)
  have "?step ?s1 ?s2"
    using step.query [where i = i and s = ?s1 and listAccounts = listAccounts and projects = projects] len
    by simp
  with 1 have 2: "?reach ?s2" by (rule reachable.after)
  have "?step ?s2 ?s3"
    using step.handoff [where i = i and s = ?s2 and res = ?r] len by simp
  with 2 have 3: "?reach ?s3" by (rule reachable.after)
  have "?step ?s3 ?s4"
    using step.release [where i = i and s = ?s3] len by simp
  with 3 have 4: "?reach ?s4" by (rule reachable.after)
  have "?step ?s4 ?s5"
    using step.wg_done [where i = i and s = ?s4] len by simp
  with 4 have 5: "?reach ?s5" by (rule reachable.after)
  have "length (progress ?R) < length projects"
    using l by (simp add: progress_fold initial_state_def)
  then have "?step ?s5 ?s6"
    using step.signal [where s = ?s5 and res = ?r and projects = projects] by simp
  with 5 have 6: "?reach ?s6" by (rule reachable.after)
  have "?step ?s6 ?s7"
    using step.reconcile [where s = ?s6 and res = ?r] by simp
  with 6 have 7: "?reach ?s7" by (rule reachable.after)
  have "?s7 = served listAccounts projects existing (order @ [i])"
    using i by (simp add: served_def served_workers_update process_result_def)
  with 7 show ?thesis by simp
qed

lemma serve_all:
  assumes c: "0 < concurrency" and d: "distinct order" and b: "set order \<subseteq> {..<length projects}"
  shows "reachable concurrency listAccounts projects existing (served listAccounts projects existing order)"
  using d b
proof (induction order rule: rev_induct)
  case Nil
  have "served listAccounts projects existing [] = initial_system projects existing"
    by (simp add: served_def initial_system_def map_replicate_const)
  with c show ?case
    using reachable.start [of concurrency listAccounts projects existing] by simp
next
  case (snoc i order)
  then have r: "reachable concurrency listAccounts projects existing (served listAccounts projects existing order)"
    by simp
  from snoc.prems have i: "i < length projects" and n: "i \<notin> set order"
    by auto
  have "card (set (order @ [i])) \<le> card {..<length projects}"
    using snoc.prems(2) by (intro card_mono) simp_all
  then have l: "length order < length projects"
    using snoc.prems(1) distinct_card [of "order @ [i]"] by simp
  from r c i n l show ?case by (rule serve_one)
qed

lemma any_order_arrives:
  assumes c: "0 < concurrency" and d: "distinct order" and b: "set order = {..<length projects}"
  shows "\<exists>s. reachable concurrency listAccounts projects existing s \<and> consumer s = Returned \<and>
              received s = map (\<lambda>i. worker_result listAccounts (projects ! i)) order"
proof -
  let ?s = "served listAccounts projects existing order"
  have r: "reachable concurrency listAccounts projects existing ?s"
    using c d b by (intro serve_all) simp_all
  have f: "list_all (\<lambda>w. w = Finished) (workers ?s)"
    using b by (auto simp: served_def list_all_iff)
  have "step concurrency listAccounts projects ?s (?s\<lparr>closed := True\<rparr>)"
    using f by (intro step.close) (simp_all add: served_def)
  with r have r1: "reachable concurrency listAccounts projects existing (?s\<lparr>closed := True\<rparr>)"
    by (rule reachable.after)
  have "step concurrency listAccounts projects (?s\<lparr>closed := True\<rparr>) (?s\<lparr>closed := True, consumer := Returned\<rparr>)"
    using step.return [where s = "?s\<lparr>closed := True\<rparr>"] by (simp add: served_def)
  with r1 have "reachable concurrency listAccounts projects existing (?s\<lparr>closed := True, consumer := Returned\<rparr>)"
    by (rule reachable.after)
  then show ?thesis
    by (intro exI [of _ "?s\<lparr>closed := True, consumer := Returned\<rparr>"]) (simp add: served_def)
qed

lemma run_to_handoff:
  "reachable 1 (\<lambda>pid. Inr []) [\<lparr>ProjectId = ''p1'', Name = ''n''\<rparr>] Map.empty
     \<lparr>workers = [Delivered], permits = 1, closed = False,
      consumer = Locked \<lparr>Project = \<lparr>ProjectId = ''p1'', Name = ''n''\<rparr>, ServiceAccounts = [], Error = None\<rparr>,
      recon = initial_state Map.empty, reported = 0,
      received = [\<lparr>Project = \<lparr>ProjectId = ''p1'', Name = ''n''\<rparr>, ServiceAccounts = [], Error = None\<rparr>]\<rparr>"
proof -
  let ?L = "\<lambda>pid :: string. Inr [] :: string + ServiceAccount list"
  let ?ps = "[\<lparr>ProjectId = ''p1'', Name = ''n''\<rparr>]"
  let ?r = "\<lparr>Project = \<lparr>ProjectId = ''p1'', Name = ''n''\<rparr>, ServiceAccounts = [], Error = None\<rparr>"
  let ?s0 = "\<lparr>workers = [Waiting], permits = 0, closed = False, consumer = Receiving,
      recon = initial_state Map.empty, reported = 0, received = []\<rparr>"
  let ?s1 = "\<lparr>workers = [Querying], permits = 1, closed = False, consumer = Receiving,
      recon = initial_state Map.empty, reported = 0, received = []\<rparr>"
  let ?s2 = "\<lparr>workers = [Sending ?r], permits = 1, closed = False, consumer = Receiving,
      recon = initial_state Map.empty, reported = 0, received = []\<rparr>"
  let ?s3 = "\<lparr>workers = [Delivered], permits = 1, closed = False, consumer = Locked ?r,
      recon = initial_state Map.empty, reported = 0, received = [?r]\<rparr>"
  have 0: "reachable 1 ?L ?ps Map.empty ?s0"
    using reachable.start [of 1 ?L ?ps Map.empty] by (simp add: initial_system_def)
  have "step 1 ?L ?ps ?s0 ?s1"
    using step.acquire [where i = 0 and s = ?s0 and concurrency = 1] by simp
  with 0 have 1: "reachable 1 ?L ?ps Map.empty ?s1"
    by (rule reachable.after)
  have "step 1 ?L ?ps ?s1 ?s2"
    using step.query [where i = 0 and s = ?s1 and listAccounts = ?L and projects = ?ps]
    by (simp add: worker_result_def)
  with 1 have 2: "reachable 1 ?L ?ps Map.empty ?s2"
    by (rule reachable.after)
  have "step 1 ?L ?ps ?s2 ?s3"
    using step.handoff [where i = 0 and s = ?s2 and res = ?r] by simp
  with 2 show ?thesis
    by (rule reachable.after)
qed

lemma run_to_report:
  "reachable 1 (\<lambda>pid. Inr []) [\<lparr>ProjectId = ''p1'', Name = ''n''\<rparr>] Map.empty
     \<lparr>workers = [Delivered], permits = 1, closed = False,
      consumer = Signalled \<lparr>Project = \<lparr>ProjectId = ''p1'', Name = ''n''\<rparr>, ServiceAccounts = [], Error = None\<rparr>,
      recon = initial_state Map.empty, reported = 1,
      received = [\<lparr>Project = \<lparr>ProjectId = ''p1'', Name = ''n''\<rparr>, ServiceAccounts = [], Error = None\<rparr>]\<rparr>"
proof -
  let ?L = "\<lambda>pid :: string. Inr [] :: string + ServiceAccount list"
  let ?ps = "[\<lparr>ProjectId = ''p1'', Name = ''n''\<rparr>]"
  let ?r = "\<lparr>Project = \<lparr>ProjectId = ''p1'', Name = ''n''\<rparr>, ServiceAccounts = [], Error = None\<rparr>"
  let ?s3 = "\<lparr>workers = [Delivered], permits = 1, closed = False, consumer = Locked ?r,
      recon = initial_state Map.empty, reported = 0, received = [?r]\<rparr>"
  let ?s4 = "\<lparr>workers = [Delivered], permits = 1, closed = False, consumer = Signalled ?r,
      recon = send_progress (initial_state Map.empty), reported = 0, received = [?r]\<rparr>"
  let ?s5 = "\<lparr>workers = [Delivered], permits = 1, closed = False, consumer = Signalled ?r,
      recon = initial_state Map.empty, reported = 1, received = [?r]\<rparr>"
  have "step 1 ?L ?ps ?s3 ?s4"
    using step.signal [where s = ?s3 and res = ?r and projects = ?ps]
    by (simp add: initial_state_def)
  with run_to_handoff have 4: "reachable 1 ?L ?ps Map.empty ?s4"
    by (rule reachable.after)
  have "step 1 ?L ?ps ?s4 ?s5"
    using step.report [where s = ?s4 and v = 1 and rest = "[]"]
    by (simp add: initial_state_def send_progress_def)
  with 4 show ?thesis
    by (rule reachable.after)
qed

lemma release_after_handoff:
  "step 1 (\<lambda>pid. Inr []) [\<lparr>ProjectId = ''p1'', Name = ''n''\<rparr>]
     \<lparr>workers = [Delivered], permits = 1, closed = False,
      consumer = Locked \<lparr>Project = \<lparr>ProjectId = ''p1'', Name = ''n''\<rparr>, ServiceAccounts = [], Error = None\<rparr>,
      recon = initial_state Map.empty, reported = 0,
      received = [\<lparr>Project = \<lparr>ProjectId = ''p1'', Name = ''n''\<rparr>, ServiceAccounts = [], Error = None\<rparr>]\<rparr>
     \<lparr>workers = [Released], permits = 0, closed = False,
      consumer = Locked \<lparr>Project = \<lparr>ProjectId = ''p1'', Name = ''n''\<rparr>, ServiceAccounts = [], Error = None\<rparr>,
      recon = initial_state Map.empty, reported = 0,
      received = [\<lparr>Project = \<lparr>ProjectId = ''p1'', Name = ''n''\<rparr>, ServiceAccounts = [], Error = None\<rparr>]\<rparr>"
  using step.release [where i = 0 and s = "\<lparr>workers = [Delivered], permits = 1, closed = False,
      consumer = Locked \<lparr>Project = \<lparr>ProjectId = ''p1'', Name = ''n''\<rparr>, ServiceAccounts = [], Error = None\<rparr>,
      recon = initial_state Map.empty, reported = 0,
      received = [\<lparr>Project = \<lparr>ProjectId = ''p1'', Name = ''n''\<rparr>, ServiceAccounts = [], Error = None\<rparr>]\<rparr>"]
  by simp

section \<open>The store key\<close>

text \<open>
  C10. The store key of an entry is the concatenation of its project id, email and
  subject id with \<open>|\<close> between them: the upsert of an account writes under that string,
  and so does the loader for a row of the file. The key is not injective: the distinct
  triples \<open>(a, b|c, d)\<close> and \<open>(a|b, c, d)\<close> both have the key \<open>a|b|c|d\<close>, and the
  upsert of the first replaces the stored entry of the second, whatever else the store
  holds.
\<close>

theorem account_key_collision:
  "account_key p e u = p @ ''|'' @ e @ ''|'' @ u
   \<and> upsert_account p \<lparr>ProjectID = x, Email = e, UniqueId = u, Status = st\<rparr> existing
       = existing(p @ ''|'' @ e @ ''|'' @ u \<mapsto>
           \<lparr>ProjectID = p, Email = e, UniqueId = u, Status = ''active''\<rparr>)
   \<and> readExistingCSV (Some (''ProjectID,Email,SubjectID,Status'' @ [LF] @ ''a|b,c,d,deleted'' @ [LF]))
       = [''a|b|c|d'' \<mapsto> \<lparr>ProjectID = ''a|b'', Email = ''c'', UniqueId = ''d'', Status = ''deleted''\<rparr>]
   \<and> (''a'', ''b|c'', ''d'') \<noteq> (''a|b'', ''c'', ''d'')
   \<and> account_key ''a'' ''b|c'' ''d'' = ''a|b|c|d''
   \<and> account_key ''a|b'' ''c'' ''d'' = ''a|b|c|d''
   \<and> upsert_account ''a'' \<lparr>ProjectID = [], Email = ''b|c'', UniqueId = ''d'', Status = []\<rparr>
         (existing(''a|b|c|d'' \<mapsto>
            \<lparr>ProjectID = ''a|b'', Email = ''c'', UniqueId = ''d'', Status = st\<rparr>))
       = existing(''a|b|c|d'' \<mapsto>
            \<lparr>ProjectID = ''a'', Email = ''b|c'', UniqueId = ''d'', Status = ''active''\<rparr>)"
proof -
  have "readExistingCSV (Some (''ProjectID,Email,SubjectID,Status'' @ [LF] @ ''a|b,c,d,deleted'' @ [LF]))
       = [''a|b|c|d'' \<mapsto> \<lparr>ProjectID = ''a|b'', Email = ''c'', UniqueId = ''d'', Status = ''deleted''\<rparr>]"
    by (simp add: readExistingCSV_def csv_reader account_key_def)
  then show ?thesis
    by (simp add: account_key_def upsert_account_def)
qed

section \<open>Deletion marking\<close>

text \<open>
  C1. The scenario of the claim evaluated on the code: the store holds
  \<open>(p1, e1, s1, active)\<close> and \<open>(p1, e2, s2, active)\<close>, and the query for \<open>p1\<close>
  succeeds with the account \<open>(e1, s1)\<close> alone. Whatever the order in which the marking
  loop visits the keys, the entry \<open>(e2, s2)\<close> is still \<open>active\<close> afterwards: the loop
  marks nothing as \<open>deleted\<close>.
\<close>

theorem deletion_marking_scenario:
  "final_accounts order
     [\<lparr>Project = \<lparr>ProjectId = ''p1'', Name = ''p1''\<rparr>,
       ServiceAccounts = [\<lparr>ProjectID = [], Email = ''e1'', UniqueId = ''s1'', Status = []\<rparr>],
       Error = None\<rparr>]
     [account_key ''p1'' ''e1'' ''s1'' \<mapsto>
        \<lparr>ProjectID = ''p1'', Email = ''e1'', UniqueId = ''s1'', Status = ''active''\<rparr>,
      account_key ''p1'' ''e2'' ''s2'' \<mapsto>
        \<lparr>ProjectID = ''p1'', Email = ''e2'', UniqueId = ''s2'', Status = ''active''\<rparr>]
     (account_key ''p1'' ''e2'' ''s2'')
   = Some \<lparr>ProjectID = ''p1'', Email = ''e2'', UniqueId = ''s2'', Status = ''active''\<rparr>"
  by (simp add: final_accounts_eq concurrentProjectProcessing_def initial_state_def
      process_result_def reconcile_result_def send_progress_def upsert_account_def account_key_def)

section \<open>Access status records\<close>

lemma access_of_worker_result:
  "access_of (worker_result listAccounts p) =
     \<lparr>AccessProjectID = ProjectId p,
      HasAccess = (case listAccounts (ProjectId p) of Inl err \<Rightarrow> ''no'' | Inr accs \<Rightarrow> ''yes'')\<rparr>"
  by (simp add: access_of_def worker_result_def split: sum.splits)

lemma access_statuses_of_arrival:
  assumes "arrival_of listAccounts projects results"
  shows "mset (accessStatuses (concurrentProjectProcessing results existing)) =
           mset (map (\<lambda>p. \<lparr>AccessProjectID = ProjectId p,
                            HasAccess = (case listAccounts (ProjectId p) of
                                           Inl err \<Rightarrow> ''no'' | Inr accs \<Rightarrow> ''yes'')\<rparr>) projects)
         \<and> length (accessStatuses (concurrentProjectProcessing results existing)) = length projects"
proof -
  have "mset (map access_of results) = image_mset access_of (mset results)"
    by simp
  also have "\<dots> = image_mset access_of (mset (map (worker_result listAccounts) projects))"
    using assms by (simp add: arrival_of_def)
  also have "\<dots> = mset (map (\<lambda>p. access_of (worker_result listAccounts p)) projects)"
    by (simp add: image_mset.compositionality comp_def)
  finally have m: "mset (map access_of results) =
      mset (map (\<lambda>p. access_of (worker_result listAccounts p)) projects)" .
  have "length results = length projects"
    using assms mset_eq_length [of results "map (worker_result listAccounts) projects"]
    by (simp add: arrival_of_def)
  with m show ?thesis
    by (simp add: accessStatuses_run access_of_worker_result)
qed

text \<open>
  C2. Whatever order the workers' outcomes arrive in, the run appends exactly one access
  status record per dispatched project: as multisets, the records are the projects'
  ids paired with \<open>yes\<close> where the query succeeded and \<open>no\<close> where it failed, so
  none is missing, none is duplicated, and there are as many records as projects. This
  holds of the consumer loop run on any arrival of the outcomes, and of every state in
  which the goroutines have run until \<open>concurrentProjectProcessing\<close> returns. (That
  every run with a positive concurrency gets there is \<open>not_stuck\<close> with \<open>step_todo\<close>.)
\<close>

theorem one_access_status_per_project:
  "(arrival_of listAccounts projects results \<longrightarrow>
      mset (accessStatuses (concurrentProjectProcessing results existing)) =
        mset (map (\<lambda>p. \<lparr>AccessProjectID = ProjectId p,
                         HasAccess = (case listAccounts (ProjectId p) of
                                        Inl err \<Rightarrow> ''no'' | Inr accs \<Rightarrow> ''yes'')\<rparr>) projects)
      \<and> length (accessStatuses (concurrentProjectProcessing results existing)) = length projects)
   \<and> (reachable concurrency listAccounts projects existing s \<longrightarrow> consumer s = Returned \<longrightarrow>
      mset (accessStatuses (recon s)) =
        mset (map (\<lambda>p. \<lparr>AccessProjectID = ProjectId p,
                         HasAccess = (case listAccounts (ProjectId p) of
                                        Inl err \<Rightarrow> ''no'' | Inr accs \<Rightarrow> ''yes'')\<rparr>) projects)
      \<and> length (accessStatuses (recon s)) = length projects)"
proof (intro conjI impI)
  assume "arrival_of listAccounts projects results"
  then show "mset (accessStatuses (concurrentProjectProcessing results existing)) =
        mset (map (\<lambda>p. \<lparr>AccessProjectID = ProjectId p,
                         HasAccess = (case listAccounts (ProjectId p) of
                                        Inl err \<Rightarrow> ''no'' | Inr accs \<Rightarrow> ''yes'')\<rparr>) projects)"
    and "length (accessStatuses (concurrentProjectProcessing results existing)) = length projects"
    using access_statuses_of_arrival by blast+
next
  assume r: "reachable concurrency listAccounts projects existing s" and c: "consumer s = Returned"
  from returned_run [OF r c]
  have a: "arrival_of listAccounts projects (received s)"
    and d: "accessStatuses (recon s) = accessStatuses (concurrentProjectProcessing (received s) existing)"
    by (simp_all add: same_data_def)
  from access_statuses_of_arrival [OF a, of existing] d
  show "mset (accessStatuses (recon s)) =
        mset (map (\<lambda>p. \<lparr>AccessProjectID = ProjectId p,
                         HasAccess = (case listAccounts (ProjectId p) of
                                        Inl err \<Rightarrow> ''no'' | Inr accs \<Rightarrow> ''yes'')\<rparr>) projects)"
    and "length (accessStatuses (recon s)) = length projects"
    by simp_all
qed

text \<open>
  The scenario of the spec: three projects, at most two queries at a time, the query of
  \<open>p2\<close> fails, and the outcomes arrive in the order \<open>p3\<close>, \<open>p1\<close>, \<open>p2\<close>.
\<close>

theorem one_access_status_per_project_witness:
  "arrival_of (\<lambda>pid. if pid = ''p2'' then Inl ''denied'' else Inr [])
     [\<lparr>ProjectId = ''p1'', Name = ''one''\<rparr>, \<lparr>ProjectId = ''p2'', Name = ''two''\<rparr>,
      \<lparr>ProjectId = ''p3'', Name = ''three''\<rparr>]
     [\<lparr>Project = \<lparr>ProjectId = ''p3'', Name = ''three''\<rparr>, ServiceAccounts = [], Error = None\<rparr>,
      \<lparr>Project = \<lparr>ProjectId = ''p1'', Name = ''one''\<rparr>, ServiceAccounts = [], Error = None\<rparr>,
      \<lparr>Project = \<lparr>ProjectId = ''p2'', Name = ''two''\<rparr>, ServiceAccounts = [],
       Error = Some ''denied''\<rparr>]
   \<and> mset (accessStatuses (concurrentProjectProcessing
        [\<lparr>Project = \<lparr>ProjectId = ''p3'', Name = ''three''\<rparr>, ServiceAccounts = [], Error = None\<rparr>,
         \<lparr>Project = \<lparr>ProjectId = ''p1'', Name = ''one''\<rparr>, ServiceAccounts = [], Error = None\<rparr>,
         \<lparr>Project = \<lparr>ProjectId = ''p2'', Name = ''two''\<rparr>, ServiceAccounts = [],
          Error = Some ''denied''\<rparr>] Map.empty))
     = mset [\<lparr>AccessProjectID = ''p1'', HasAccess = ''yes''\<rparr>,
             \<lparr>AccessProjectID = ''p2'', HasAccess = ''no''\<rparr>,
             \<lparr>AccessProjectID = ''p3'', HasAccess = ''yes''\<rparr>]
   \<and> (\<exists>s. reachable 2 (\<lambda>pid. if pid = ''p2'' then Inl ''denied'' else Inr [])
            [\<lparr>ProjectId = ''p1'', Name = ''one''\<rparr>, \<lparr>ProjectId = ''p2'', Name = ''two''\<rparr>,
             \<lparr>ProjectId = ''p3'', Name = ''three''\<rparr>] Map.empty s
          \<and> consumer s = Returned
          \<and> received s =
             [\<lparr>Project = \<lparr>ProjectId = ''p3'', Name = ''three''\<rparr>, ServiceAccounts = [], Error = None\<rparr>,
              \<lparr>Project = \<lparr>ProjectId = ''p1'', Name = ''one''\<rparr>, ServiceAccounts = [], Error = None\<rparr>,
              \<lparr>Project = \<lparr>ProjectId = ''p2'', Name = ''two''\<rparr>, ServiceAccounts = [],
               Error = Some ''denied''\<rparr>]
          \<and> mset (accessStatuses (recon s))
             = mset [\<lparr>AccessProjectID = ''p1'', HasAccess = ''yes''\<rparr>,
                     \<lparr>AccessProjectID = ''p2'', HasAccess = ''no''\<rparr>,
                     \<lparr>AccessProjectID = ''p3'', HasAccess = ''yes''\<rparr>])"
proof -
  let ?L = "\<lambda>pid. if pid = ''p2'' then Inl ''denied'' else Inr [] :: string + ServiceAccount list"
  let ?ps = "[\<lparr>ProjectId = ''p1'', Name = ''one''\<rparr>, \<lparr>ProjectId = ''p2'', Name = ''two''\<rparr>,
      \<lparr>ProjectId = ''p3'', Name = ''three''\<rparr>]"
  let ?rs = "[\<lparr>Project = \<lparr>ProjectId = ''p3'', Name = ''three''\<rparr>, ServiceAccounts = [], Error = None\<rparr>,
      \<lparr>Project = \<lparr>ProjectId = ''p1'', Name = ''one''\<rparr>, ServiceAccounts = [], Error = None\<rparr>,
      \<lparr>Project = \<lparr>ProjectId = ''p2'', Name = ''two''\<rparr>, ServiceAccounts = [],
       Error = Some ''denied''\<rparr>]"
  let ?M = "mset [\<lparr>AccessProjectID = ''p1'', HasAccess = ''yes''\<rparr>,
             \<lparr>AccessProjectID = ''p2'', HasAccess = ''no''\<rparr>,
             \<lparr>AccessProjectID = ''p3'', HasAccess = ''yes''\<rparr>]"
  have h: "arrival_of ?L ?ps ?rs"
    by (simp add: arrival_of_def worker_result_def)
  have 1: "mset (accessStatuses (concurrentProjectProcessing ?rs Map.empty)) = ?M"
    using h one_access_status_per_project [of ?L ?ps ?rs Map.empty] by simp
  have "set [2, 0, 1] = {..<length ?ps}"
    by (auto simp: lessThan_def)
  then obtain s where r: "reachable 2 ?L ?ps Map.empty s" and c: "consumer s = Returned"
    and v: "received s = map (\<lambda>i. worker_result ?L (?ps ! i)) [2, 0, 1]"
    using any_order_arrives [of 2 "[2, 0, 1]" ?ps ?L Map.empty] by auto
  from v have v': "received s = ?rs"
    by (simp add: worker_result_def)
  have "mset (accessStatuses (recon s)) = ?M"
    using r c one_access_status_per_project [of ?L ?ps _ Map.empty 2 s] by simp
  with r c v' have "\<exists>s. reachable 2 ?L ?ps Map.empty s \<and> consumer s = Returned \<and> received s = ?rs
      \<and> mset (accessStatuses (recon s)) = ?M"
    by blast
  with h 1 show ?thesis
    by (intro conjI)
qed

section \<open>Loading the persisted records\<close>

text \<open>
  C8. The loaders keep the test on the length of a row, but a row shorter than the
  header never reaches it. With \<open>FieldsPerRecord\<close> left at 0 the reader takes the
  number of fields of the first record as the number every record must have, \<open>ReadAll\<close>
  answers a record of another length with \<open>ErrFieldCount\<close> and no records, and the
  loaders drop the error. So for every file: the load is empty, or no record of the
  file has fewer than 4 columns (\<open>short_row_never_skipped\<close>). The file with the header
  and the row \<open>p1,e1,s1,active\<close> loads that entry; the same file with the row \<open>p2,e2\<close>
  added loads nothing at all, in load mode and in analysis mode. The test on the length
  decides only between files whose records all have one length: with 3 columns
  throughout every row is skipped, with 5 columns throughout every row gives its entry.
\<close>

theorem short_row_aborts_load:
  "readExistingCSV (Some (''ProjectID,Email,SubjectID,Status'' @ [LF] @ ''p1,e1,s1,active'' @ [LF]))
     = [''p1|e1|s1'' \<mapsto> \<lparr>ProjectID = ''p1'', Email = ''e1'', UniqueId = ''s1'', Status = ''active''\<rparr>]
   \<and> readExistingCSV
       (Some (''ProjectID,Email,SubjectID,Status'' @ [LF] @ ''p1,e1,s1,active'' @ [LF] @ ''p2,e2'' @ [LF]))
     = Map.empty
   \<and> readExistingCSVForAnalysis (Some (''ProjectID,Email,SubjectID,Status'' @ [LF] @ ''p1,e1,s1,active'' @ [LF]))
     = [''s1'' \<mapsto> \<lparr>ProjectID = ''p1'', Email = ''e1'', UniqueId = ''s1'', Status = ''active''\<rparr>]
   \<and> readExistingCSVForAnalysis
       (Some (''ProjectID,Email,SubjectID,Status'' @ [LF] @ ''p1,e1,s1,active'' @ [LF] @ ''p2,e2'' @ [LF]))
     = Map.empty
   \<and> ReadAll (''ProjectID,Email,SubjectID,Status'' @ [LF] @ ''p1,e1,s1,active'' @ [LF] @ ''p2,e2'' @ [LF])
     = Inl ErrFieldCount
   \<and> ReadAll (''ProjectID,Email,SubjectID'' @ [LF] @ ''p1,e1,s1'' @ [LF])
     = Inr [[''ProjectID'', ''Email'', ''SubjectID''], [''p1'', ''e1'', ''s1'']]
   \<and> readExistingCSV (Some (''ProjectID,Email,SubjectID'' @ [LF] @ ''p1,e1,s1'' @ [LF])) = Map.empty
   \<and> readExistingCSVForAnalysis (Some (''ProjectID,Email,SubjectID'' @ [LF] @ ''p1,e1,s1'' @ [LF])) = Map.empty
   \<and> readExistingCSV (Some (''ProjectID,Email,SubjectID,Status,Note'' @ [LF] @ ''p1,e1,s1,active,n'' @ [LF]))
     = [''p1|e1|s1'' \<mapsto> \<lparr>ProjectID = ''p1'', Email = ''e1'', UniqueId = ''s1'', Status = ''active''\<rparr>]
   \<and> readExistingCSVForAnalysis
       (Some (''ProjectID,Email,SubjectID,Status,Note'' @ [LF] @ ''p1,e1,s1,active,n'' @ [LF]))
     = [''s1'' \<mapsto> \<lparr>ProjectID = ''p1'', Email = ''e1'', UniqueId = ''s1'', Status = ''active''\<rparr>]"
proof -
  have good: "ReadAll (''ProjectID,Email,SubjectID,Status'' @ [LF] @ ''p1,e1,s1,active'' @ [LF])
      = Inr [[''ProjectID'', ''Email'', ''SubjectID'', ''Status''], [''p1'', ''e1'', ''s1'', ''active'']]"
    by (simp add: csv_reader)
  have bad: "ReadAll (''ProjectID,Email,SubjectID,Status'' @ [LF] @ ''p1,e1,s1,active'' @ [LF] @ ''p2,e2'' @ [LF])
      = Inl ErrFieldCount"
    by (simp add: csv_reader)
  have three: "ReadAll (''ProjectID,Email,SubjectID'' @ [LF] @ ''p1,e1,s1'' @ [LF])
      = Inr [[''ProjectID'', ''Email'', ''SubjectID''], [''p1'', ''e1'', ''s1'']]"
    by (simp add: csv_reader)
  have five: "ReadAll (''ProjectID,Email,SubjectID,Status,Note'' @ [LF] @ ''p1,e1,s1,active,n'' @ [LF])
      = Inr [[''ProjectID'', ''Email'', ''SubjectID'', ''Status'', ''Note''],
             [''p1'', ''e1'', ''s1'', ''active'', ''n'']]"
    by (simp add: csv_reader)
  have 1: "readExistingCSV (Some (''ProjectID,Email,SubjectID,Status'' @ [LF] @ ''p1,e1,s1,active'' @ [LF]))
     = [''p1|e1|s1'' \<mapsto> \<lparr>ProjectID = ''p1'', Email = ''e1'', UniqueId = ''s1'', Status = ''active''\<rparr>]"
    unfolding readExistingCSV_def option.case good by (simp add: account_key_def)
  have 2: "readExistingCSV
       (Some (''ProjectID,Email,SubjectID,Status'' @ [LF] @ ''p1,e1,s1,active'' @ [LF] @ ''p2,e2'' @ [LF]))
     = Map.empty"
    unfolding readExistingCSV_def option.case bad by simp
  have 3: "readExistingCSVForAnalysis (Some (''ProjectID,Email,SubjectID,Status'' @ [LF] @ ''p1,e1,s1,active'' @ [LF]))
     = [''s1'' \<mapsto> \<lparr>ProjectID = ''p1'', Email = ''e1'', UniqueId = ''s1'', Status = ''active''\<rparr>]"
    unfolding readExistingCSVForAnalysis_def option.case good by simp
  have 4: "readExistingCSVForAnalysis
       (Some (''ProjectID,Email,SubjectID,Status'' @ [LF] @ ''p1,e1,s1,active'' @ [LF] @ ''p2,e2'' @ [LF]))
     = Map.empty"
    unfolding readExistingCSVForAnalysis_def option.case bad by simp
  have 5: "readExistingCSV (Some (''ProjectID,Email,SubjectID'' @ [LF] @ ''p1,e1,s1'' @ [LF])) = Map.empty"
    unfolding readExistingCSV_def option.case three by simp
  have 6: "readExistingCSVForAnalysis (Some (''ProjectID,Email,SubjectID'' @ [LF] @ ''p1,e1,s1'' @ [LF])) = Map.empty"
    unfolding readExistingCSVForAnalysis_def option.case three by simp
  have 7: "readExistingCSV (Some (''ProjectID,Email,SubjectID,Status,Note'' @ [LF] @ ''p1,e1,s1,active,n'' @ [LF]))
     = [''p1|e1|s1'' \<mapsto> \<lparr>ProjectID = ''p1'', Email = ''e1'', UniqueId = ''s1'', Status = ''active''\<rparr>]"
    unfolding readExistingCSV_def option.case five by (simp add: account_key_def)
  have 8: "readExistingCSVForAnalysis
       (Some (''ProjectID,Email,SubjectID,Status,Note'' @ [LF] @ ''p1,e1,s1,active,n'' @ [LF]))
     = [''s1'' \<mapsto> \<lparr>ProjectID = ''p1'', Email = ''e1'', UniqueId = ''s1'', Status = ''active''\<rparr>]"
    unfolding readExistingCSVForAnalysis_def option.case five by simp
  from 1 2 3 4 bad three 5 6 7 8 show ?thesis
    by (intro conjI)
qed

section \<open>The bulk lookup\<close>

text \<open>
  C9. Whatever the orders in which the map is ranged over, the lookup splits the input at
  the commas, trims every piece and drops the empty ones; of the remaining ids, the
  missing list holds, in input order, those that are the subject id of no stored account
  and the found list holds one stored account for each of the others, with that subject
  id. Over a store whose subject ids are 111 and 222, the input \<open>111,333, 222\<close> gives
  the accounts of 111 and 222 as found and 333 as missing.
\<close>

theorem bulk_lookup_partition:
  assumes "visits_keys orders accounts"
  shows "snd (bulkSubjectIDLookup orders accounts input) =
           filter (\<lambda>t. \<not> has_subject accounts t) (lookup_tokens input)
       \<and> map UniqueId (fst (bulkSubjectIDLookup orders accounts input)) =
           filter (has_subject accounts) (lookup_tokens input)
       \<and> set (fst (bulkSubjectIDLookup orders accounts input)) \<subseteq> ran accounts
       \<and> (UniqueId ` ran accounts = {''111'', ''222''} \<longrightarrow>
            map UniqueId (fst (bulkSubjectIDLookup orders accounts ''111,333, 222'')) = [''111'', ''222''] \<and>
            snd (bulkSubjectIDLookup orders accounts ''111,333, 222'') = [''333''])"
proof -
  have ex: "has_subject accounts ''111'' \<and> \<not> has_subject accounts ''333'' \<and> has_subject accounts ''222''"
    if "UniqueId ` ran accounts = {''111'', ''222''}"
  proof -
    have "has_subject accounts t \<longleftrightarrow> t \<in> UniqueId ` ran accounts" for t
      by (auto simp: has_subject_def)
    with that show ?thesis by simp
  qed
  have gen: "snd (bulkSubjectIDLookup orders accounts inp) =
           filter (\<lambda>t. \<not> has_subject accounts t) (lookup_tokens inp)
       \<and> map UniqueId (fst (bulkSubjectIDLookup orders accounts inp)) =
           filter (has_subject accounts) (lookup_tokens inp)
       \<and> set (fst (bulkSubjectIDLookup orders accounts inp)) \<subseteq> ran accounts" for inp
    using bulk_loop_missing [OF assms, of 0 "Split_comma inp" "[]" "[]"]
      bulk_loop_found [OF assms, of 0 "Split_comma inp" "[]" "[]"]
      bulk_loop_found_stored [OF assms, of 0 "Split_comma inp" "[]" "[]"]
    unfolding bulkSubjectIDLookup_def lookup_tokens_def by simp
  show ?thesis
    using gen [of input] gen [of "''111,333, 222''"] ex
    unfolding lookup_tokens_example by simp
qed

theorem bulk_lookup_partition_witness:
  "visits_keys (\<lambda>i. [''222'', ''111''])
     [''111'' \<mapsto> \<lparr>ProjectID = ''p1'', Email = ''a@p1'', UniqueId = ''111'', Status = ''active''\<rparr>,
      ''222'' \<mapsto> \<lparr>ProjectID = ''p2'', Email = ''b@p2'', UniqueId = ''222'', Status = ''deleted''\<rparr>]
   \<and> bulkSubjectIDLookup (\<lambda>i. [''222'', ''111''])
       [''111'' \<mapsto> \<lparr>ProjectID = ''p1'', Email = ''a@p1'', UniqueId = ''111'', Status = ''active''\<rparr>,
        ''222'' \<mapsto> \<lparr>ProjectID = ''p2'', Email = ''b@p2'', UniqueId = ''222'', Status = ''deleted''\<rparr>]
       ''111,333, 222''
     = ([\<lparr>ProjectID = ''p1'', Email = ''a@p1'', UniqueId = ''111'', Status = ''active''\<rparr>,
         \<lparr>ProjectID = ''p2'', Email = ''b@p2'', UniqueId = ''222'', Status = ''deleted''\<rparr>],
        [''333''])"
proof -
  let ?accounts = "[''111'' \<mapsto> \<lparr>ProjectID = ''p1'', Email = ''a@p1'', UniqueId = ''111'', Status = ''active''\<rparr>,
      ''222'' \<mapsto> \<lparr>ProjectID = ''p2'', Email = ''b@p2'', UniqueId = ''222'', Status = ''deleted''\<rparr>]"
  let ?r = "bulkSubjectIDLookup (\<lambda>i. [''222'', ''111'']) ?accounts ''111,333, 222''"
  have h: "visits_keys (\<lambda>i. [''222'', ''111'']) ?accounts"
    unfolding visits_keys_def by (simp add: insert_commute)
  have r: "ran ?accounts =
     {\<lparr>ProjectID = ''p1'', Email = ''a@p1'', UniqueId = ''111'', Status = ''active''\<rparr>,
      \<lparr>ProjectID = ''p2'', Email = ''b@p2'', UniqueId = ''222'', Status = ''deleted''\<rparr>}"
    by (simp add: insert_commute)
  have i: "UniqueId ` ran ?accounts = {''111'', ''222''}"
    unfolding r by simp
  from bulk_lookup_partition [OF h, of "''111,333, 222''"] i
  have m: "snd ?r = [''333'']" and u: "map UniqueId (fst ?r) = [''111'', ''222'']"
    and s: "set (fst ?r) \<subseteq> ran ?accounts"
    by blast+
  from u obtain a b where ab: "fst ?r = [a, b]" and a: "UniqueId a = ''111''" and b: "UniqueId b = ''222''"
    by (auto simp: map_eq_Cons_conv)
  from s have "a \<in> ran ?accounts" "b \<in> ran ?accounts"
    unfolding ab by simp_all
  with a b have "a = \<lparr>ProjectID = ''p1'', Email = ''a@p1'', UniqueId = ''111'', Status = ''active''\<rparr>"
    "b = \<lparr>ProjectID = ''p2'', Email = ''b@p2'', UniqueId = ''222'', Status = ''deleted''\<rparr>"
    unfolding r by auto
  with ab m have "?r =
     ([\<lparr>ProjectID = ''p1'', Email = ''a@p1'', UniqueId = ''111'', Status = ''active''\<rparr>,
       \<lparr>ProjectID = ''p2'', Email = ''b@p2'', UniqueId = ''222'', Status = ''deleted''\<rparr>],
      [''333''])"
    by (simp add: prod_eq_iff)
  with h show ?thesis
    by (rule conjI)
qed


section \<open>Failed projects\<close>

text \<open>
  C3, as amended. Take a stored entry, under the key of its own fields, of a project none
  of whose outcomes in the run is a success, and let no account of a successful outcome
  have the key of the entry without having its identity (so it is when the project ids
  and emails are free of \<open>|\<close>, by \<open>bar_free_keys_agree\<close>). Then after the run, deletion
  marking included, the entry is stored unchanged under its key. A failed outcome appends
  the record \<open>(projectId, no)\<close> and sends its progress signal, and does nothing else.
\<close>

theorem failed_project_entries_unchanged:
  assumes "existing k = Some e"
    and "k = account_key (ProjectID e) (Email e) (UniqueId e)"
    and "no_success (ProjectID e) results"
    and "keys_agree e results"
  shows "final_accounts order results existing k = Some e
       \<and> (Error res \<noteq> None \<longrightarrow>
            process_result res s =
              s\<lparr>accessStatuses := accessStatuses s @
                   [\<lparr>AccessProjectID = ProjectId (Project res), HasAccess = ''no''\<rparr>],
                progress := progress s @ [1]\<rparr>)"
  using final_untouched [of existing k e results order] assms
  by (simp add: process_result_def reconcile_result_def send_progress_def)

theorem failed_project_entries_unchanged_witness:
  "[''p2|e|s'' \<mapsto> \<lparr>ProjectID = ''p2'', Email = ''e'', UniqueId = ''s'', Status = ''active''\<rparr>] ''p2|e|s''
     = Some \<lparr>ProjectID = ''p2'', Email = ''e'', UniqueId = ''s'', Status = ''active''\<rparr>
   \<and> no_success ''p2''
       [\<lparr>Project = \<lparr>ProjectId = ''p2'', Name = ''x''\<rparr>, ServiceAccounts = [], Error = Some ''denied''\<rparr>,
        \<lparr>Project = \<lparr>ProjectId = ''p1'', Name = ''y''\<rparr>,
         ServiceAccounts = [\<lparr>ProjectID = [], Email = ''e'', UniqueId = ''s'', Status = []\<rparr>],
         Error = None\<rparr>]
   \<and> keys_agree \<lparr>ProjectID = ''p2'', Email = ''e'', UniqueId = ''s'', Status = ''active''\<rparr>
       [\<lparr>Project = \<lparr>ProjectId = ''p2'', Name = ''x''\<rparr>, ServiceAccounts = [], Error = Some ''denied''\<rparr>,
        \<lparr>Project = \<lparr>ProjectId = ''p1'', Name = ''y''\<rparr>,
         ServiceAccounts = [\<lparr>ProjectID = [], Email = ''e'', UniqueId = ''s'', Status = []\<rparr>],
         Error = None\<rparr>]
   \<and> final_accounts [''p2|e|s'', ''p1|e|s'']
       [\<lparr>Project = \<lparr>ProjectId = ''p2'', Name = ''x''\<rparr>, ServiceAccounts = [], Error = Some ''denied''\<rparr>,
        \<lparr>Project = \<lparr>ProjectId = ''p1'', Name = ''y''\<rparr>,
         ServiceAccounts = [\<lparr>ProjectID = [], Email = ''e'', UniqueId = ''s'', Status = []\<rparr>],
         Error = None\<rparr>]
       [''p2|e|s'' \<mapsto> \<lparr>ProjectID = ''p2'', Email = ''e'', UniqueId = ''s'', Status = ''active''\<rparr>]
       ''p2|e|s''
     = Some \<lparr>ProjectID = ''p2'', Email = ''e'', UniqueId = ''s'', Status = ''active''\<rparr>
   \<and> process_result
       \<lparr>Project = \<lparr>ProjectId = ''p2'', Name = ''x''\<rparr>, ServiceAccounts = [], Error = Some ''denied''\<rparr>
       (initial_state Map.empty)
     = (initial_state Map.empty)
         \<lparr>accessStatuses := [\<lparr>AccessProjectID = ''p2'', HasAccess = ''no''\<rparr>], progress := [1]\<rparr>"
proof -
  let ?e = "\<lparr>ProjectID = ''p2'', Email = ''e'', UniqueId = ''s'', Status = ''active''\<rparr>"
  let ?rs = "[\<lparr>Project = \<lparr>ProjectId = ''p2'', Name = ''x''\<rparr>, ServiceAccounts = [], Error = Some ''denied''\<rparr>,
        \<lparr>Project = \<lparr>ProjectId = ''p1'', Name = ''y''\<rparr>,
         ServiceAccounts = [\<lparr>ProjectID = [], Email = ''e'', UniqueId = ''s'', Status = []\<rparr>],
         Error = None\<rparr>]"
  have 1: "[''p2|e|s'' \<mapsto> ?e] ''p2|e|s'' = Some ?e" by simp
  have 2: "''p2|e|s'' = account_key (ProjectID ?e) (Email ?e) (UniqueId ?e)"
    by (simp add: account_key_def)
  have 3: "no_success (ProjectID ?e) ?rs" by (simp add: no_success_def)
  have 4: "keys_agree ?e ?rs"
    by (simp add: keys_agree_def account_key_def)
  have "final_accounts [''p2|e|s'', ''p1|e|s''] ?rs [''p2|e|s'' \<mapsto> ?e] ''p2|e|s'' = Some ?e
      \<and> (Error \<lparr>Project = \<lparr>ProjectId = ''p2'', Name = ''x''\<rparr>, ServiceAccounts = [], Error = Some ''denied''\<rparr> \<noteq> None \<longrightarrow>
           process_result \<lparr>Project = \<lparr>ProjectId = ''p2'', Name = ''x''\<rparr>, ServiceAccounts = [], Error = Some ''denied''\<rparr>
             (initial_state Map.empty) =
           (initial_state Map.empty)\<lparr>accessStatuses := accessStatuses (initial_state Map.empty) @
               [\<lparr>AccessProjectID = ProjectId (Project \<lparr>Project = \<lparr>ProjectId = ''p2'', Name = ''x''\<rparr>, ServiceAccounts = [], Error = Some ''denied''\<rparr>),
                 HasAccess = ''no''\<rparr>],
             progress := progress (initial_state Map.empty) @ [1]\<rparr>)"
    using 1 2 3 4
    by (rule failed_project_entries_unchanged)
  then show ?thesis
    using 3 4 by (simp add: initial_state_def)
qed

text \<open>
  Without the condition on the keys the claim fails. The project \<open>a|b\<close> fails and has
  the stored entry \<open>(a|b, c, d, deleted)\<close>; the project \<open>a\<close> succeeds with the account
  \<open>(b, c|d)\<close>, whose key is the same string \<open>a|b|c|d\<close>: the stored entry of the failed
  project is replaced.
\<close>

theorem failed_project_entry_overwritten:
  "[''a|b|c|d'' \<mapsto> \<lparr>ProjectID = ''a|b'', Email = ''c'', UniqueId = ''d'', Status = ''deleted''\<rparr>]
     (account_key ''a|b'' ''c'' ''d'')
     = Some \<lparr>ProjectID = ''a|b'', Email = ''c'', UniqueId = ''d'', Status = ''deleted''\<rparr>
   \<and> no_success ''a|b''
       [\<lparr>Project = \<lparr>ProjectId = ''a|b'', Name = ''x''\<rparr>, ServiceAccounts = [], Error = Some ''denied''\<rparr>,
        \<lparr>Project = \<lparr>ProjectId = ''a'', Name = ''y''\<rparr>,
         ServiceAccounts = [\<lparr>ProjectID = [], Email = ''b'', UniqueId = ''c|d'', Status = []\<rparr>],
         Error = None\<rparr>]
   \<and> final_accounts [''a|b|c|d'']
       [\<lparr>Project = \<lparr>ProjectId = ''a|b'', Name = ''x''\<rparr>, ServiceAccounts = [], Error = Some ''denied''\<rparr>,
        \<lparr>Project = \<lparr>ProjectId = ''a'', Name = ''y''\<rparr>,
         ServiceAccounts = [\<lparr>ProjectID = [], Email = ''b'', UniqueId = ''c|d'', Status = []\<rparr>],
         Error = None\<rparr>]
       [''a|b|c|d'' \<mapsto> \<lparr>ProjectID = ''a|b'', Email = ''c'', UniqueId = ''d'', Status = ''deleted''\<rparr>]
       (account_key ''a|b'' ''c'' ''d'')
     = Some \<lparr>ProjectID = ''a'', Email = ''b'', UniqueId = ''c|d'', Status = ''active''\<rparr>"
  by (simp add: no_success_def final_accounts_eq concurrentProjectProcessing_def initial_state_def
      process_result_def reconcile_result_def send_progress_def upsert_account_def account_key_def)

section \<open>Resurrection\<close>

text \<open>
  C4, as amended. Take an entry of the loaded store with status \<open>deleted\<close> whose identity
  is among the accounts of a successful outcome of its project, and let no account of a
  successful outcome have the key of the entry without having its identity (so it is
  when the project ids and emails are free of \<open>|\<close>). Then after the run the entry is
  stored under the same key with status \<open>active\<close> and its other fields unchanged, and
  that key is the only one that holds an entry of this identity.
\<close>

theorem deleted_entry_resurrected:
  assumes "readExistingCSV file k = Some e"
    and "Status e = ''deleted''"
    and "reappears e results"
    and "keys_agree e results"
  shows "final_accounts order results (readExistingCSV file) k = Some (e\<lparr>Status := ''active''\<rparr>)
       \<and> {k'. \<exists>e'. final_accounts order results (readExistingCSV file) k' = Some e' \<and> same_identity e' e} = {k}"
proof -
  let ?final = "final_accounts order results (readExistingCSV file)"
  have k: "k = account_key (ProjectID e) (Email e) (UniqueId e)"
    using well_keyed_readExistingCSV [of "file"] assms(1) by (simp add: well_keyed_def)
  have 1: "?final k = Some (e\<lparr>Status := ''active''\<rparr>)"
    unfolding k using assms(4,3) by (rule final_at_reappearing)
  have wk: "well_keyed ?final"
    by (rule well_keyed_final) (rule well_keyed_readExistingCSV)
  have "k' = k" if a: "?final k' = Some e'" and b: "same_identity e' e" for k' e'
  proof -
    from wk a have "k' = account_key (ProjectID e') (Email e') (UniqueId e')"
      unfolding well_keyed_def by blast
    with b k show ?thesis by (simp add: same_identity_def)
  qed
  moreover have "same_identity (e\<lparr>Status := ''active''\<rparr>) e"
    by (simp add: same_identity_def)
  ultimately have "{k'. \<exists>e'. ?final k' = Some e' \<and> same_identity e' e} = {k}"
    using 1 by blast
  with 1 show ?thesis by simp
qed

theorem deleted_entry_resurrected_witness:
  "readExistingCSV (Some (''ProjectID,Email,SubjectID,Status'' @ [LF] @ ''p1,e1,s1,deleted'' @ [LF])) ''p1|e1|s1''
     = Some \<lparr>ProjectID = ''p1'', Email = ''e1'', UniqueId = ''s1'', Status = ''deleted''\<rparr>
   \<and> reappears \<lparr>ProjectID = ''p1'', Email = ''e1'', UniqueId = ''s1'', Status = ''deleted''\<rparr>
       [\<lparr>Project = \<lparr>ProjectId = ''p1'', Name = ''n''\<rparr>,
         ServiceAccounts = [\<lparr>ProjectID = [], Email = ''e1'', UniqueId = ''s1'', Status = []\<rparr>],
         Error = None\<rparr>]
   \<and> keys_agree \<lparr>ProjectID = ''p1'', Email = ''e1'', UniqueId = ''s1'', Status = ''deleted''\<rparr>
       [\<lparr>Project = \<lparr>ProjectId = ''p1'', Name = ''n''\<rparr>,
         ServiceAccounts = [\<lparr>ProjectID = [], Email = ''e1'', UniqueId = ''s1'', Status = []\<rparr>],
         Error = None\<rparr>]
   \<and> final_accounts [''p1|e1|s1'']
       [\<lparr>Project = \<lparr>ProjectId = ''p1'', Name = ''n''\<rparr>,
         ServiceAccounts = [\<lparr>ProjectID = [], Email = ''e1'', UniqueId = ''s1'', Status = []\<rparr>],
         Error = None\<rparr>]
       (readExistingCSV (Some (''ProjectID,Email,SubjectID,Status'' @ [LF] @ ''p1,e1,s1,deleted'' @ [LF]))) ''p1|e1|s1''
     = Some \<lparr>ProjectID = ''p1'', Email = ''e1'', UniqueId = ''s1'', Status = ''active''\<rparr>"
proof -
  let ?file = "Some (''ProjectID,Email,SubjectID,Status'' @ [LF] @ ''p1,e1,s1,deleted'' @ [LF])"
  let ?e = "\<lparr>ProjectID = ''p1'', Email = ''e1'', UniqueId = ''s1'', Status = ''deleted''\<rparr>"
  let ?rs = "[\<lparr>Project = \<lparr>ProjectId = ''p1'', Name = ''n''\<rparr>,
         ServiceAccounts = [\<lparr>ProjectID = [], Email = ''e1'', UniqueId = ''s1'', Status = []\<rparr>],
         Error = None\<rparr>]"
  have 1: "readExistingCSV ?file ''p1|e1|s1'' = Some ?e"
    by (simp add: readExistingCSV_def csv_reader account_key_def)
  have 2: "Status ?e = ''deleted''" by simp
  have 3: "reappears ?e ?rs" by (simp add: reappears_def)
  have 4: "keys_agree ?e ?rs"
    by (simp add: keys_agree_def)
  have "final_accounts [''p1|e1|s1''] ?rs (readExistingCSV ?file) ''p1|e1|s1'' = Some (?e\<lparr>Status := ''active''\<rparr>)
      \<and> {k'. \<exists>e'. final_accounts [''p1|e1|s1''] ?rs (readExistingCSV ?file) k' = Some e' \<and> same_identity e' ?e}
          = {''p1|e1|s1''}"
    using 1 2 3 4 by (rule deleted_entry_resurrected)
  then show ?thesis
    using 1 3 4 by simp
qed

text \<open>
  Without the condition on the keys the claim fails. The stored entry
  \<open>(p, x, y|z, deleted)\<close> reappears in the successful outcome of \<open>p\<close>, which also holds
  the account \<open>(x|y, z)\<close> with the same key \<open>p|x|y|z\<close>: after the run the store holds
  that other account alone, and no entry of the identity \<open>(p, x, y|z)\<close>.
\<close>

theorem resurrected_entry_replaced:
  "readExistingCSV (Some (''ProjectID,Email,SubjectID,Status'' @ [LF] @ ''p,x,y|z,deleted'' @ [LF]))
     (account_key ''p'' ''x'' ''y|z'')
     = Some \<lparr>ProjectID = ''p'', Email = ''x'', UniqueId = ''y|z'', Status = ''deleted''\<rparr>
   \<and> reappears \<lparr>ProjectID = ''p'', Email = ''x'', UniqueId = ''y|z'', Status = ''deleted''\<rparr>
       [\<lparr>Project = \<lparr>ProjectId = ''p'', Name = ''n''\<rparr>,
         ServiceAccounts = [\<lparr>ProjectID = [], Email = ''x'', UniqueId = ''y|z'', Status = []\<rparr>,
                            \<lparr>ProjectID = [], Email = ''x|y'', UniqueId = ''z'', Status = []\<rparr>],
         Error = None\<rparr>]
   \<and> final_accounts [''p|x|y|z'']
       [\<lparr>Project = \<lparr>ProjectId = ''p'', Name = ''n''\<rparr>,
         ServiceAccounts = [\<lparr>ProjectID = [], Email = ''x'', UniqueId = ''y|z'', Status = []\<rparr>,
                            \<lparr>ProjectID = [], Email = ''x|y'', UniqueId = ''z'', Status = []\<rparr>],
         Error = None\<rparr>]
       (readExistingCSV (Some (''ProjectID,Email,SubjectID,Status'' @ [LF] @ ''p,x,y|z,deleted'' @ [LF])))
     = [''p|x|y|z'' \<mapsto> \<lparr>ProjectID = ''p'', Email = ''x|y'', UniqueId = ''z'', Status = ''active''\<rparr>]"
  by (simp add: readExistingCSV_def csv_reader reappears_def final_accounts_eq concurrentProjectProcessing_def
      initial_state_def process_result_def reconcile_result_def send_progress_def upsert_account_def
      account_key_def)

section \<open>Running load mode twice\<close>

text \<open>
  C5, as amended. Run load mode twice over the same projects with the same answers of the
  directory, the outcomes arriving in any order each time, the first run writing every
  entry of its store to the file, which the second run reads. Let no two accounts of the
  successful outcomes with different identities have the same key (so it is when the
  project ids and emails are free of \<open>|\<close>, by \<open>bar_free_collision_free\<close>), and let no
  field that the first run writes hold a carriage return with a line feed right after it.
  Then the store after the second run is the store after the first, every account of a
  successful outcome is stored as \<open>active\<close>, and every entry that is \<open>deleted\<close> after the
  second run was so after the first.
\<close>

theorem second_run_same_store:
  assumes "arrival_of listAccounts projects results"
    and "arrival_of listAccounts projects results'"
    and "collision_free results"
    and "set write_order = dom (store_after_run mark_order results file)"
    and "no_crlf_written write_order (store_after_run mark_order results file)"
  shows "store_after_run mark_order' results' (load_mode mark_order write_order results file)
           = store_after_run mark_order results file
       \<and> (\<forall>res \<in> set results. Error res = None \<longrightarrow>
            (\<forall>acc \<in> set (ServiceAccounts res).
               store_after_run mark_order' results' (load_mode mark_order write_order results file)
                 (account_key (ProjectId (Project res)) (Email acc) (UniqueId acc))
               = Some \<lparr>ProjectID = ProjectId (Project res), Email = Email acc,
                       UniqueId = UniqueId acc, Status = ''active''\<rparr>))
       \<and> (\<forall>k e. store_after_run mark_order' results' (load_mode mark_order write_order results file) k = Some e
              \<longrightarrow> Status e = ''deleted'' \<longrightarrow> store_after_run mark_order results file k = Some e)"
proof -
  let ?st1 = "store_after_run mark_order results file"
  let ?U = "concat (map upserts_of results)"
  have st1: "?st1 = fold put ?U (readExistingCSV file)"
    by (simp add: store_after_run_def final_accounts_puts)
  have wk: "well_keyed ?st1"
    unfolding store_after_run_def by (rule well_keyed_final) (rule well_keyed_readExistingCSV)
  have reload: "readExistingCSV (load_mode mark_order write_order results file) = ?st1"
    using read_written [OF wk assms(4) assms(5)] by (simp add: load_mode_def store_after_run_def)
  have "mset results' = mset results"
    using assms(1,2) by (simp add: arrival_of_def)
  then have "set results' = set results"
    by (rule mset_eq_setD)
  then have sets: "set (concat (map upserts_of results')) = set ?U"
    by simp
  have at: "?st1 k = Some v" if "(k, v) \<in> set ?U" for k v
    using final_at_upsert [OF assms(3) that] by (simp add: store_after_run_def)
  have "fold put (concat (map upserts_of results')) ?st1 = ?st1"
    by (rule fold_put_same) (use sets at in auto)
  then have eq: "store_after_run mark_order' results' (load_mode mark_order write_order results file) = ?st1"
    by (simp add: store_after_run_def final_accounts_puts reload [unfolded store_after_run_def])
  show ?thesis
    unfolding eq using at upserts_memI [of _ results] by blast
qed

theorem second_run_same_store_witness:
  "arrival_of
     (\<lambda>pid. if pid = ''p1'' then Inr [\<lparr>ProjectID = [], Email = ''e1'', UniqueId = ''s1'', Status = []\<rparr>]
            else Inl ''denied'')
     [\<lparr>ProjectId = ''p1'', Name = ''x''\<rparr>, \<lparr>ProjectId = ''p2'', Name = ''y''\<rparr>]
     [\<lparr>Project = \<lparr>ProjectId = ''p1'', Name = ''x''\<rparr>,
       ServiceAccounts = [\<lparr>ProjectID = [], Email = ''e1'', UniqueId = ''s1'', Status = []\<rparr>], Error = None\<rparr>,
      \<lparr>Project = \<lparr>ProjectId = ''p2'', Name = ''y''\<rparr>, ServiceAccounts = [], Error = Some ''denied''\<rparr>]
   \<and> arrival_of
     (\<lambda>pid. if pid = ''p1'' then Inr [\<lparr>ProjectID = [], Email = ''e1'', UniqueId = ''s1'', Status = []\<rparr>]
            else Inl ''denied'')
     [\<lparr>ProjectId = ''p1'', Name = ''x''\<rparr>, \<lparr>ProjectId = ''p2'', Name = ''y''\<rparr>]
     [\<lparr>Project = \<lparr>ProjectId = ''p2'', Name = ''y''\<rparr>, ServiceAccounts = [], Error = Some ''denied''\<rparr>,
      \<lparr>Project = \<lparr>ProjectId = ''p1'', Name = ''x''\<rparr>,
       ServiceAccounts = [\<lparr>ProjectID = [], Email = ''e1'', UniqueId = ''s1'', Status = []\<rparr>], Error = None\<rparr>]
   \<and> collision_free
     [\<lparr>Project = \<lparr>ProjectId = ''p1'', Name = ''x''\<rparr>,
       ServiceAccounts = [\<lparr>ProjectID = [], Email = ''e1'', UniqueId = ''s1'', Status = []\<rparr>], Error = None\<rparr>,
      \<lparr>Project = \<lparr>ProjectId = ''p2'', Name = ''y''\<rparr>, ServiceAccounts = [], Error = Some ''denied''\<rparr>]
   \<and> set [''p1|e1|s1''] = dom (store_after_run [''p1|e1|s1'']
     [\<lparr>Project = \<lparr>ProjectId = ''p1'', Name = ''x''\<rparr>,
       ServiceAccounts = [\<lparr>ProjectID = [], Email = ''e1'', UniqueId = ''s1'', Status = []\<rparr>], Error = None\<rparr>,
      \<lparr>Project = \<lparr>ProjectId = ''p2'', Name = ''y''\<rparr>, ServiceAccounts = [], Error = Some ''denied''\<rparr>]
     None)
   \<and> no_crlf_written [''p1|e1|s1''] (store_after_run [''p1|e1|s1'']
     [\<lparr>Project = \<lparr>ProjectId = ''p1'', Name = ''x''\<rparr>,
       ServiceAccounts = [\<lparr>ProjectID = [], Email = ''e1'', UniqueId = ''s1'', Status = []\<rparr>], Error = None\<rparr>,
      \<lparr>Project = \<lparr>ProjectId = ''p2'', Name = ''y''\<rparr>, ServiceAccounts = [], Error = Some ''denied''\<rparr>]
     None)
   \<and> store_after_run [''p1|e1|s1'']
       [\<lparr>Project = \<lparr>ProjectId = ''p2'', Name = ''y''\<rparr>, ServiceAccounts = [], Error = Some ''denied''\<rparr>,
        \<lparr>Project = \<lparr>ProjectId = ''p1'', Name = ''x''\<rparr>,
         ServiceAccounts = [\<lparr>ProjectID = [], Email = ''e1'', UniqueId = ''s1'', Status = []\<rparr>], Error = None\<rparr>]
       (load_mode [''p1|e1|s1''] [''p1|e1|s1'']
         [\<lparr>Project = \<lparr>ProjectId = ''p1'', Name = ''x''\<rparr>,
           ServiceAccounts = [\<lparr>ProjectID = [], Email = ''e1'', UniqueId = ''s1'', Status = []\<rparr>], Error = None\<rparr>,
          \<lparr>Project = \<lparr>ProjectId = ''p2'', Name = ''y''\<rparr>, ServiceAccounts = [], Error = Some ''denied''\<rparr>]
         None)
     = store_after_run [''p1|e1|s1'']
       [\<lparr>Project = \<lparr>ProjectId = ''p1'', Name = ''x''\<rparr>,
         ServiceAccounts = [\<lparr>ProjectID = [], Email = ''e1'', UniqueId = ''s1'', Status = []\<rparr>], Error = None\<rparr>,
        \<lparr>Project = \<lparr>ProjectId = ''p2'', Name = ''y''\<rparr>, ServiceAccounts = [], Error = Some ''denied''\<rparr>]
       None
   \<and> store_after_run [''p1|e1|s1'']
       [\<lparr>Project = \<lparr>ProjectId = ''p2'', Name = ''y''\<rparr>, ServiceAccounts = [], Error = Some ''denied''\<rparr>,
        \<lparr>Project = \<lparr>ProjectId = ''p1'', Name = ''x''\<rparr>,
         ServiceAccounts = [\<lparr>ProjectID = [], Email = ''e1'', UniqueId = ''s1'', Status = []\<rparr>], Error = None\<rparr>]
       (load_mode [''p1|e1|s1''] [''p1|e1|s1'']
         [\<lparr>Project = \<lparr>ProjectId = ''p1'', Name = ''x''\<rparr>,
           ServiceAccounts = [\<lparr>ProjectID = [], Email = ''e1'', UniqueId = ''s1'', Status = []\<rparr>], Error = None\<rparr>,
          \<lparr>Project = \<lparr>ProjectId = ''p2'', Name = ''y''\<rparr>, ServiceAccounts = [], Error = Some ''denied''\<rparr>]
         None)
       (account_key ''p1'' ''e1'' ''s1'')
     = Some \<lparr>ProjectID = ''p1'', Email = ''e1'', UniqueId = ''s1'', Status = ''active''\<rparr>"
proof -
  let ?L = "\<lambda>pid. if pid = ''p1'' then Inr [\<lparr>ProjectID = [], Email = ''e1'', UniqueId = ''s1'', Status = []\<rparr>]
            else Inl ''denied''"
  let ?ps = "[\<lparr>ProjectId = ''p1'', Name = ''x''\<rparr>, \<lparr>ProjectId = ''p2'', Name = ''y''\<rparr>]"
  let ?r1 = "\<lparr>Project = \<lparr>ProjectId = ''p1'', Name = ''x''\<rparr>,
       ServiceAccounts = [\<lparr>ProjectID = [], Email = ''e1'', UniqueId = ''s1'', Status = []\<rparr>], Error = None\<rparr>"
  let ?r2 = "\<lparr>Project = \<lparr>ProjectId = ''p2'', Name = ''y''\<rparr>, ServiceAccounts = [], Error = Some ''denied''\<rparr>"
  have 1: "arrival_of ?L ?ps [?r1, ?r2]" and 2: "arrival_of ?L ?ps [?r2, ?r1]"
    by (simp_all add: arrival_of_def worker_result_def)
  have 3: "collision_free [?r1, ?r2]"
    by (simp add: collision_free_def upserts_of_def)
  have st: "store_after_run [''p1|e1|s1''] [?r1, ?r2] None
      = [''p1|e1|s1'' \<mapsto> \<lparr>ProjectID = ''p1'', Email = ''e1'', UniqueId = ''s1'', Status = ''active''\<rparr>]"
    by (simp add: store_after_run_def readExistingCSV_def final_accounts_eq concurrentProjectProcessing_def
      initial_state_def process_result_def reconcile_result_def send_progress_def upsert_account_def
      account_key_def)
  have 4: "set [''p1|e1|s1''] = dom (store_after_run [''p1|e1|s1''] [?r1, ?r2] None)"
    unfolding st by simp
  have 5: "no_crlf_written [''p1|e1|s1''] (store_after_run [''p1|e1|s1''] [?r1, ?r2] None)"
    unfolding st by (simp add: no_crlf_written_def List.map_filter_def account_row_def)
  have r1: "?r1 \<in> set [?r1, ?r2]" and e: "Error ?r1 = None"
    and a: "\<lparr>ProjectID = [], Email = ''e1'', UniqueId = ''s1'', Status = []\<rparr> \<in> set (ServiceAccounts ?r1)"
    by simp_all
  from second_run_same_store [OF 1 2 3 4 5, of "[''p1|e1|s1'']"]
  have eq: "store_after_run [''p1|e1|s1''] [?r2, ?r1] (load_mode [''p1|e1|s1''] [''p1|e1|s1''] [?r1, ?r2] None)
              = store_after_run [''p1|e1|s1''] [?r1, ?r2] None"
    and ob: "\<forall>res \<in> set [?r1, ?r2]. Error res = None \<longrightarrow>
            (\<forall>acc \<in> set (ServiceAccounts res).
               store_after_run [''p1|e1|s1''] [?r2, ?r1] (load_mode [''p1|e1|s1''] [''p1|e1|s1''] [?r1, ?r2] None)
                 (account_key (ProjectId (Project res)) (Email acc) (UniqueId acc))
               = Some \<lparr>ProjectID = ProjectId (Project res), Email = Email acc,
                       UniqueId = UniqueId acc, Status = ''active''\<rparr>)"
    by blast+
  from ob r1 e a
  have v: "store_after_run [''p1|e1|s1''] [?r2, ?r1] (load_mode [''p1|e1|s1''] [''p1|e1|s1''] [?r1, ?r2] None)
               (account_key ''p1'' ''e1'' ''s1'')
             = Some \<lparr>ProjectID = ''p1'', Email = ''e1'', UniqueId = ''s1'', Status = ''active''\<rparr>"
    by force
  from 1 2 3 4 5 eq v show ?thesis
    by (intro conjI)
qed

text \<open>
  Without either condition the claim fails.

  Keys: the projects \<open>a\<close> and \<open>a|b\<close> answer with the accounts \<open>(b, c|d)\<close> and \<open>(c, d)\<close>,
  which have the same key \<open>a|b|c|d\<close>, and nothing written holds a carriage return. In
  the first run the outcome of \<open>a\<close> arrives first, in the second run that of \<open>a|b\<close>: the
  store after the first run holds the account of \<open>a|b\<close>, the store after the second run
  that of \<open>a\<close>.

  Line ends: the project \<open>p1\<close> answers with one account, whose subject id is \<open>s\<close>,
  carriage return, line feed, \<open>1\<close>; no two keys collide. The first run writes the subject
  id between quotes as it is, the second run reads it back with the line feed alone,
  loads the entry under a key of its own and then stores the account of the answer beside
  it: the store after the first run has one entry, the store after the second run two.
\<close>

theorem second_run_differs:
  "(arrival_of
     (\<lambda>pid. if pid = ''a'' then Inr [\<lparr>ProjectID = [], Email = ''b'', UniqueId = ''c|d'', Status = []\<rparr>]
            else Inr [\<lparr>ProjectID = [], Email = ''c'', UniqueId = ''d'', Status = []\<rparr>])
     [\<lparr>ProjectId = ''a'', Name = ''x''\<rparr>, \<lparr>ProjectId = ''a|b'', Name = ''y''\<rparr>]
     [\<lparr>Project = \<lparr>ProjectId = ''a'', Name = ''x''\<rparr>,
       ServiceAccounts = [\<lparr>ProjectID = [], Email = ''b'', UniqueId = ''c|d'', Status = []\<rparr>], Error = None\<rparr>,
      \<lparr>Project = \<lparr>ProjectId = ''a|b'', Name = ''y''\<rparr>,
       ServiceAccounts = [\<lparr>ProjectID = [], Email = ''c'', UniqueId = ''d'', Status = []\<rparr>], Error = None\<rparr>]
   \<and> arrival_of
     (\<lambda>pid. if pid = ''a'' then Inr [\<lparr>ProjectID = [], Email = ''b'', UniqueId = ''c|d'', Status = []\<rparr>]
            else Inr [\<lparr>ProjectID = [], Email = ''c'', UniqueId = ''d'', Status = []\<rparr>])
     [\<lparr>ProjectId = ''a'', Name = ''x''\<rparr>, \<lparr>ProjectId = ''a|b'', Name = ''y''\<rparr>]
     [\<lparr>Project = \<lparr>ProjectId = ''a|b'', Name = ''y''\<rparr>,
       ServiceAccounts = [\<lparr>ProjectID = [], Email = ''c'', UniqueId = ''d'', Status = []\<rparr>], Error = None\<rparr>,
      \<lparr>Project = \<lparr>ProjectId = ''a'', Name = ''x''\<rparr>,
       ServiceAccounts = [\<lparr>ProjectID = [], Email = ''b'', UniqueId = ''c|d'', Status = []\<rparr>], Error = None\<rparr>]
   \<and> store_after_run [''a|b|c|d'']
       [\<lparr>Project = \<lparr>ProjectId = ''a'', Name = ''x''\<rparr>,
         ServiceAccounts = [\<lparr>ProjectID = [], Email = ''b'', UniqueId = ''c|d'', Status = []\<rparr>], Error = None\<rparr>,
        \<lparr>Project = \<lparr>ProjectId = ''a|b'', Name = ''y''\<rparr>,
         ServiceAccounts = [\<lparr>ProjectID = [], Email = ''c'', UniqueId = ''d'', Status = []\<rparr>], Error = None\<rparr>]
       None
     = [''a|b|c|d'' \<mapsto> \<lparr>ProjectID = ''a|b'', Email = ''c'', UniqueId = ''d'', Status = ''active''\<rparr>]
   \<and> no_crlf_written [''a|b|c|d'']
       [''a|b|c|d'' \<mapsto> \<lparr>ProjectID = ''a|b'', Email = ''c'', UniqueId = ''d'', Status = ''active''\<rparr>]
   \<and> store_after_run [''a|b|c|d'']
       [\<lparr>Project = \<lparr>ProjectId = ''a|b'', Name = ''y''\<rparr>,
         ServiceAccounts = [\<lparr>ProjectID = [], Email = ''c'', UniqueId = ''d'', Status = []\<rparr>], Error = None\<rparr>,
        \<lparr>Project = \<lparr>ProjectId = ''a'', Name = ''x''\<rparr>,
         ServiceAccounts = [\<lparr>ProjectID = [], Email = ''b'', UniqueId = ''c|d'', Status = []\<rparr>], Error = None\<rparr>]
       (load_mode [''a|b|c|d''] [''a|b|c|d'']
          [\<lparr>Project = \<lparr>ProjectId = ''a'', Name = ''x''\<rparr>,
            ServiceAccounts = [\<lparr>ProjectID = [], Email = ''b'', UniqueId = ''c|d'', Status = []\<rparr>], Error = None\<rparr>,
           \<lparr>Project = \<lparr>ProjectId = ''a|b'', Name = ''y''\<rparr>,
            ServiceAccounts = [\<lparr>ProjectID = [], Email = ''c'', UniqueId = ''d'', Status = []\<rparr>], Error = None\<rparr>]
          None)
     = [''a|b|c|d'' \<mapsto> \<lparr>ProjectID = ''a'', Email = ''b'', UniqueId = ''c|d'', Status = ''active''\<rparr>])
   \<and> (arrival_of
     (\<lambda>pid. Inr [\<lparr>ProjectID = [], Email = ''e1'', UniqueId = ''s'' @ [CR, LF] @ ''1'', Status = []\<rparr>])
     [\<lparr>ProjectId = ''p1'', Name = ''x''\<rparr>]
     [\<lparr>Project = \<lparr>ProjectId = ''p1'', Name = ''x''\<rparr>,
       ServiceAccounts = [\<lparr>ProjectID = [], Email = ''e1'', UniqueId = ''s'' @ [CR, LF] @ ''1'', Status = []\<rparr>],
       Error = None\<rparr>]
   \<and> collision_free
     [\<lparr>Project = \<lparr>ProjectId = ''p1'', Name = ''x''\<rparr>,
       ServiceAccounts = [\<lparr>ProjectID = [], Email = ''e1'', UniqueId = ''s'' @ [CR, LF] @ ''1'', Status = []\<rparr>],
       Error = None\<rparr>]
   \<and> store_after_run [''p1|e1|s'' @ [CR, LF] @ ''1'']
       [\<lparr>Project = \<lparr>ProjectId = ''p1'', Name = ''x''\<rparr>,
         ServiceAccounts = [\<lparr>ProjectID = [], Email = ''e1'', UniqueId = ''s'' @ [CR, LF] @ ''1'', Status = []\<rparr>],
         Error = None\<rparr>]
       None
     = [''p1|e1|s'' @ [CR, LF] @ ''1'' \<mapsto>
          \<lparr>ProjectID = ''p1'', Email = ''e1'', UniqueId = ''s'' @ [CR, LF] @ ''1'', Status = ''active''\<rparr>]
   \<and> store_after_run [''p1|e1|s'' @ [LF] @ ''1'', ''p1|e1|s'' @ [CR, LF] @ ''1'']
       [\<lparr>Project = \<lparr>ProjectId = ''p1'', Name = ''x''\<rparr>,
         ServiceAccounts = [\<lparr>ProjectID = [], Email = ''e1'', UniqueId = ''s'' @ [CR, LF] @ ''1'', Status = []\<rparr>],
         Error = None\<rparr>]
       (load_mode [''p1|e1|s'' @ [CR, LF] @ ''1''] [''p1|e1|s'' @ [CR, LF] @ ''1'']
          [\<lparr>Project = \<lparr>ProjectId = ''p1'', Name = ''x''\<rparr>,
            ServiceAccounts = [\<lparr>ProjectID = [], Email = ''e1'', UniqueId = ''s'' @ [CR, LF] @ ''1'', Status = []\<rparr>],
            Error = None\<rparr>]
          None)
     = [''p1|e1|s'' @ [LF] @ ''1'' \<mapsto>
          \<lparr>ProjectID = ''p1'', Email = ''e1'', UniqueId = ''s'' @ [LF] @ ''1'', Status = ''active''\<rparr>,
        ''p1|e1|s'' @ [CR, LF] @ ''1'' \<mapsto>
          \<lparr>ProjectID = ''p1'', Email = ''e1'', UniqueId = ''s'' @ [CR, LF] @ ''1'', Status = ''active''\<rparr>])"
proof -
  let ?ra = "\<lparr>Project = \<lparr>ProjectId = ''a'', Name = ''x''\<rparr>,
       ServiceAccounts = [\<lparr>ProjectID = [], Email = ''b'', UniqueId = ''c|d'', Status = []\<rparr>], Error = None\<rparr>"
  let ?rb = "\<lparr>Project = \<lparr>ProjectId = ''a|b'', Name = ''y''\<rparr>,
       ServiceAccounts = [\<lparr>ProjectID = [], Email = ''c'', UniqueId = ''d'', Status = []\<rparr>], Error = None\<rparr>"
  let ?e = "\<lparr>ProjectID = ''a|b'', Email = ''c'', UniqueId = ''d'', Status = ''active''\<rparr>"
  have stA: "store_after_run [''a|b|c|d''] [?ra, ?rb] None = [''a|b|c|d'' \<mapsto> ?e]"
    by (simp add: store_after_run_def readExistingCSV_def final_accounts_eq concurrentProjectProcessing_def
      initial_state_def process_result_def reconcile_result_def send_progress_def upsert_account_def
      account_key_def)
  have fileA: "load_mode [''a|b|c|d''] [''a|b|c|d''] [?ra, ?rb] None
      = Some (''ProjectID,Email,SubjectID,Status'' @ [LF] @ ''a|b,c,d,active'' @ [LF])"
    unfolding load_mode_def stA [unfolded store_after_run_def]
    by (simp add: writeCSV_def List.map_filter_def account_row_def csv_writer)
  have backA: "readExistingCSV (Some (''ProjectID,Email,SubjectID,Status'' @ [LF] @ ''a|b,c,d,active'' @ [LF]))
      = [''a|b|c|d'' \<mapsto> ?e]"
    by (simp add: readExistingCSV_def csv_reader account_key_def)
  have st2A: "store_after_run [''a|b|c|d''] [?rb, ?ra] (load_mode [''a|b|c|d''] [''a|b|c|d''] [?ra, ?rb] None)
      = [''a|b|c|d'' \<mapsto> \<lparr>ProjectID = ''a'', Email = ''b'', UniqueId = ''c|d'', Status = ''active''\<rparr>]"
    unfolding fileA store_after_run_def backA
    by (simp add: final_accounts_eq concurrentProjectProcessing_def
      initial_state_def process_result_def reconcile_result_def send_progress_def upsert_account_def
      account_key_def)
  have arA: "arrival_of
     (\<lambda>pid. if pid = ''a'' then Inr [\<lparr>ProjectID = [], Email = ''b'', UniqueId = ''c|d'', Status = []\<rparr>]
            else Inr [\<lparr>ProjectID = [], Email = ''c'', UniqueId = ''d'', Status = []\<rparr>])
     [\<lparr>ProjectId = ''a'', Name = ''x''\<rparr>, \<lparr>ProjectId = ''a|b'', Name = ''y''\<rparr>] [?ra, ?rb]"
    "arrival_of
     (\<lambda>pid. if pid = ''a'' then Inr [\<lparr>ProjectID = [], Email = ''b'', UniqueId = ''c|d'', Status = []\<rparr>]
            else Inr [\<lparr>ProjectID = [], Email = ''c'', UniqueId = ''d'', Status = []\<rparr>])
     [\<lparr>ProjectId = ''a'', Name = ''x''\<rparr>, \<lparr>ProjectId = ''a|b'', Name = ''y''\<rparr>] [?rb, ?ra]"
    by (simp_all add: arrival_of_def worker_result_def)
  have ncA: "no_crlf_written [''a|b|c|d''] [''a|b|c|d'' \<mapsto> ?e]"
    by (simp add: no_crlf_written_def List.map_filter_def account_row_def)
  let ?r = "\<lparr>Project = \<lparr>ProjectId = ''p1'', Name = ''x''\<rparr>,
       ServiceAccounts = [\<lparr>ProjectID = [], Email = ''e1'', UniqueId = ''s'' @ [CR, LF] @ ''1'', Status = []\<rparr>],
       Error = None\<rparr>"
  let ?k = "''p1|e1|s'' @ [CR, LF] @ ''1''"
  let ?f = "\<lparr>ProjectID = ''p1'', Email = ''e1'', UniqueId = ''s'' @ [CR, LF] @ ''1'', Status = ''active''\<rparr>"
  have arB: "arrival_of
     (\<lambda>pid. Inr [\<lparr>ProjectID = [], Email = ''e1'', UniqueId = ''s'' @ [CR, LF] @ ''1'', Status = []\<rparr>])
     [\<lparr>ProjectId = ''p1'', Name = ''x''\<rparr>] [?r]"
    by (simp add: arrival_of_def worker_result_def)
  have cfB: "collision_free [?r]"
    by (simp add: collision_free_def upserts_of_def)
  have stB: "store_after_run [?k] [?r] None = [?k \<mapsto> ?f]"
    by (simp add: store_after_run_def readExistingCSV_def final_accounts_eq concurrentProjectProcessing_def
      initial_state_def process_result_def reconcile_result_def send_progress_def upsert_account_def
      account_key_def)
  have fileB: "load_mode [?k] [?k] [?r] None
      = Some (''ProjectID,Email,SubjectID,Status'' @ [LF]
              @ ''p1,e1,'' @ [DQ] @ ''s'' @ [CR, LF] @ ''1'' @ [DQ] @ '',active'' @ [LF])"
    unfolding load_mode_def stB [unfolded store_after_run_def]
    by (simp add: writeCSV_def List.map_filter_def account_row_def csv_writer)
  have backB: "readExistingCSV (Some (''ProjectID,Email,SubjectID,Status'' @ [LF]
              @ ''p1,e1,'' @ [DQ] @ ''s'' @ [CR, LF] @ ''1'' @ [DQ] @ '',active'' @ [LF]))
      = [''p1|e1|s'' @ [LF] @ ''1'' \<mapsto>
          \<lparr>ProjectID = ''p1'', Email = ''e1'', UniqueId = ''s'' @ [LF] @ ''1'', Status = ''active''\<rparr>]"
    by (simp add: readExistingCSV_def csv_reader account_key_def)
  have st2B: "store_after_run [''p1|e1|s'' @ [LF] @ ''1'', ?k] [?r] (load_mode [?k] [?k] [?r] None)
      = [''p1|e1|s'' @ [LF] @ ''1'' \<mapsto>
          \<lparr>ProjectID = ''p1'', Email = ''e1'', UniqueId = ''s'' @ [LF] @ ''1'', Status = ''active''\<rparr>,
         ?k \<mapsto> ?f]"
    unfolding fileB store_after_run_def backB
    by (simp add: final_accounts_eq concurrentProjectProcessing_def
      initial_state_def process_result_def reconcile_result_def send_progress_def upsert_account_def
      account_key_def)
  from arA stA ncA st2A arB cfB stB st2B show ?thesis
    by (intro conjI)
qed

section \<open>The progress signal\<close>

text \<open>
  C6, as amended. At every moment of a run, the signals sent so far (those waiting in the
  channel and those the reporter has counted) are as many as the outcomes reconciled so
  far, plus one while the consumer has signalled the outcome in hand and not yet
  reconciled it; and they are as many as the outcomes received, less one while the
  outcome in hand is not yet signalled. So the signal of an outcome is sent after the
  outcome is received and before its status record is appended and its upserts are done.
\<close>

theorem signal_between_receipt_and_reconciliation:
  assumes "reachable concurrency listAccounts projects existing s"
  shows "length (progress (recon s)) + reported s =
           length (accessStatuses (recon s)) + signalled_ahead (consumer s)
       \<and> length (accessStatuses (recon s)) + signalled_ahead (consumer s) + awaiting_signal (consumer s)
           = length (received s)"
  using assms by (rule signals_invariant)

theorem signal_between_receipt_and_reconciliation_witness:
  "reachable 1 (\<lambda>pid. Inr []) [\<lparr>ProjectId = ''p1'', Name = ''n''\<rparr>] Map.empty
     \<lparr>workers = [Delivered], permits = 1, closed = False,
      consumer = Signalled \<lparr>Project = \<lparr>ProjectId = ''p1'', Name = ''n''\<rparr>, ServiceAccounts = [], Error = None\<rparr>,
      recon = initial_state Map.empty, reported = 1,
      received = [\<lparr>Project = \<lparr>ProjectId = ''p1'', Name = ''n''\<rparr>, ServiceAccounts = [], Error = None\<rparr>]\<rparr>
   \<and> length (progress (initial_state Map.empty)) + 1 =
       length (accessStatuses (initial_state Map.empty)) +
       signalled_ahead (Signalled \<lparr>Project = \<lparr>ProjectId = ''p1'', Name = ''n''\<rparr>, ServiceAccounts = [], Error = None\<rparr>)"
  using signal_between_receipt_and_reconciliation [OF run_to_report] run_to_report by simp

text \<open>
  The claim as stated fails: with one project, after the steps acquire, query, hand-over,
  signal and report, the reporter has counted the project as completed, while the status
  list is still empty and the store untouched.
\<close>

theorem signal_reported_before_reconciliation:
  "reachable 1 (\<lambda>pid. Inr []) [\<lparr>ProjectId = ''p1'', Name = ''n''\<rparr>] Map.empty
     \<lparr>workers = [Delivered], permits = 1, closed = False,
      consumer = Signalled \<lparr>Project = \<lparr>ProjectId = ''p1'', Name = ''n''\<rparr>, ServiceAccounts = [], Error = None\<rparr>,
      recon = \<lparr>existingAccounts = Map.empty, accessStatuses = [], processed = Map.empty, progress = []\<rparr>,
      reported = 1,
      received = [\<lparr>Project = \<lparr>ProjectId = ''p1'', Name = ''n''\<rparr>, ServiceAccounts = [], Error = None\<rparr>]\<rparr>"
  using run_to_report by (simp add: initial_state_def)

section \<open>The admission gate\<close>

text \<open>
  C7, as amended. At every moment of a run the permits taken from the gate are exactly
  those of the workers that are querying, waiting to hand their outcome over, or have
  handed it over and not yet run their deferred release, and they are at most
  \<open>concurrency\<close>; a step that gives a permit back is the step of a worker whose outcome
  the consumer has already received. So a worker keeps its permit until after the
  hand-over, and the gate bounds the queries together with the hand-overs.
\<close>

theorem permit_held_until_handed_over:
  assumes "reachable concurrency listAccounts projects existing s"
  shows "permits s = length (filter holds_permit (workers s)) \<and> int (permits s) \<le> concurrency
       \<and> (\<forall>s'. step concurrency listAccounts projects s s' \<longrightarrow> permits s' < permits s \<longrightarrow>
             (\<exists>i < length (workers s). workers s ! i = Delivered \<and> workers s' ! i = Released))"
proof -
  have "\<exists>i < length (workers s). workers s ! i = Delivered \<and> workers s' ! i = Released"
    if "step concurrency listAccounts projects s s'" and "permits s' < permits s" for s'
    using that by (cases rule: step.cases) auto
  with permits_invariant [OF assms] show ?thesis by blast
qed

theorem permit_held_until_handed_over_witness:
  "reachable 1 (\<lambda>pid. Inr []) [\<lparr>ProjectId = ''p1'', Name = ''n''\<rparr>] Map.empty
     \<lparr>workers = [Delivered], permits = 1, closed = False,
      consumer = Locked \<lparr>Project = \<lparr>ProjectId = ''p1'', Name = ''n''\<rparr>, ServiceAccounts = [], Error = None\<rparr>,
      recon = initial_state Map.empty, reported = 0,
      received = [\<lparr>Project = \<lparr>ProjectId = ''p1'', Name = ''n''\<rparr>, ServiceAccounts = [], Error = None\<rparr>]\<rparr>
   \<and> step 1 (\<lambda>pid. Inr []) [\<lparr>ProjectId = ''p1'', Name = ''n''\<rparr>]
     \<lparr>workers = [Delivered], permits = 1, closed = False,
      consumer = Locked \<lparr>Project = \<lparr>ProjectId = ''p1'', Name = ''n''\<rparr>, ServiceAccounts = [], Error = None\<rparr>,
      recon = initial_state Map.empty, reported = 0,
      received = [\<lparr>Project = \<lparr>ProjectId = ''p1'', Name = ''n''\<rparr>, ServiceAccounts = [], Error = None\<rparr>]\<rparr>
     \<lparr>workers = [Released], permits = 0, closed = False,
      consumer = Locked \<lparr>Project = \<lparr>ProjectId = ''p1'', Name = ''n''\<rparr>, ServiceAccounts = [], Error = None\<rparr>,
      recon = initial_state Map.empty, reported = 0,
      received = [\<lparr>Project = \<lparr>ProjectId = ''p1'', Name = ''n''\<rparr>, ServiceAccounts = [], Error = None\<rparr>]\<rparr>
   \<and> length (filter holds_permit [Delivered]) = 1
   \<and> (\<exists>i < length [Delivered]. [Delivered] ! i = Delivered \<and> [Released] ! i = Released)"
  using permit_held_until_handed_over [OF run_to_handoff] run_to_handoff release_after_handoff
  by simp

text \<open>
  The claim as stated fails: with one project and \<open>concurrency = 1\<close>, after the steps
  acquire, query and hand-over the consumer holds the worker's outcome, and the worker
  still holds the only permit.
\<close>

theorem permit_held_while_outcome_visible:
  "reachable 1 (\<lambda>pid. Inr []) [\<lparr>ProjectId = ''p1'', Name = ''n''\<rparr>] Map.empty
     \<lparr>workers = [Delivered], permits = 1, closed = False,
      consumer = Locked \<lparr>Project = \<lparr>ProjectId = ''p1'', Name = ''n''\<rparr>, ServiceAccounts = [], Error = None\<rparr>,
      recon = initial_state Map.empty, reported = 0,
      received = [\<lparr>Project = \<lparr>ProjectId = ''p1'', Name = ''n''\<rparr>, ServiceAccounts = [], Error = None\<rparr>]\<rparr>"
  by (rule run_to_handoff)

end
